theory Spec2Isabelle
  imports Main "HOL-Library.Word" "HOL-Library.Char_ord" "HOL-Library.List_Lexorder"
    "HOL-Library.Multiset"
begin

unbundle bit_operations_syntax

section \<open>Characters and errors\<close>

text \<open>
  The program works on \<open>std::string\<close> and \<open>char\<close>. \<open>isupper\<close> and \<open>isdigit\<close> are the
  C-locale classifications of \<open><cctype>\<close>. The quote character (the NOT marker) gets a
  name of its own.
\<close>

definition isupper :: "char \<Rightarrow> bool" where
  "isupper c = (65 \<le> (of_char c :: nat) \<and> (of_char c :: nat) \<le> 90)"

definition isdigit :: "char \<Rightarrow> bool" where
  "isdigit c = (48 \<le> (of_char c :: nat) \<and> (of_char c :: nat) \<le> 57)"

definition quote :: char where
  "quote = CHR 0x27"

text \<open>
  The messages the program prints on \<open>std::cerr\<close>, one constructor per message:
  \<open>[ERROR] Invalid character 'c'\<close> (validate), \<open>[ERROR] Invalid expression\<close> (cvtRPN),
  \<open>[ERROR] Invalid NOT/AND/XOR/OR logic\<close> and \<open>[ERROR] Invalid logic\<close> (analyze; the
  last one is printed both for an unknown postfix token and for more than one node
  left on the stack).
\<close>

datatype error =
    InvalidCharacter char
  | InvalidExpression
  | InvalidNotLogic
  | InvalidAndLogic
  | InvalidXorLogic
  | InvalidOrLogic
  | InvalidLogic

section \<open>validate\<close>

text \<open>
  \<open>var\<close> is a \<open>std::set<char>\<close>: it is modelled by the list of its elements in
  iteration order (ascending, without duplicates); \<open>set_insert\<close> is \<open>var.insert\<close>.
\<close>

definition set_insert :: "char \<Rightarrow> char list \<Rightarrow> char list" where
  "set_insert c var = (if c \<in> set var then var else insort c var)"

fun validate :: "string \<Rightarrow> char list \<Rightarrow> error + char list" where
  "validate [] var = Inr var"
| "validate (i # input) var =
     (if \<not> isupper i \<and> i \<noteq> CHR ''('' \<and> i \<noteq> CHR '')'' \<and> i \<noteq> CHR ''+'' \<and> i \<noteq> quote
         \<and> i \<noteq> CHR ''1'' \<and> i \<noteq> CHR ''0'' \<and> i \<noteq> CHR ''^''
      then Inl (InvalidCharacter i)
      else if isupper i then validate input (set_insert i var)
      else validate input var)"

section \<open>The syntax tree\<close>

text \<open>
  The subclasses of \<open>OpNode\<close>. \<open>VarNode\<close> holds a \<open>char\<close> that is either a variable
  name or, below 2, a constant. In \<open>AndNode l r\<close>, \<open>l\<close> is the node popped first.
  \<open>mvar\<close> is the global \<open>unordered_map<char, int>\<close>, read with \<open>operator[]\<close> only, so a
  missing key reads as 0.
\<close>

datatype OpNode =
    VarNode char
  | NotNode OpNode
  | AndNode OpNode OpNode
  | OrNode OpNode OpNode
  | XorNode OpNode OpNode

fun get :: "OpNode \<Rightarrow> (char \<Rightarrow> int) \<Rightarrow> int" where
  "get (VarNode cvar) mvar = (if (of_char cvar :: nat) < 2 then of_char cvar else mvar cvar)"
| "get (NotNode l) mvar = get l mvar XOR 1"
| "get (AndNode l r) mvar = get l mvar AND get r mvar"
| "get (OrNode l r) mvar = get l mvar OR get r mvar"
| "get (XorNode l r) mvar = get l mvar XOR get r mvar"

section \<open>cvtAL and cvtRPN\<close>

text \<open>The priority function \<open>prf\<close> (the name is an Isabelle command, hence the suffix).\<close>

definition prf_fn :: "char \<Rightarrow> int" where
  "prf_fn c = (if c = CHR ''('' then 1 else if c = CHR ''+'' then 2 else if c = CHR ''^'' then 3
            else if c = CHR ''*'' then 4 else if c = quote then 5 else if c = CHR '')'' then 6
            else 0)"

text \<open>The loop of \<open>cvtAL\<close> from index 1 on; \<open>p\<close> is \<open>expr[i - 1]\<close>.\<close>

fun cvtAL_from :: "char \<Rightarrow> string \<Rightarrow> string" where
  "cvtAL_from p [] = []"
| "cvtAL_from p (c # cs) =
     (if (isupper c \<or> isdigit c \<or> c = CHR ''('') \<and> p \<noteq> CHR ''('' \<and> p \<noteq> CHR ''+'' \<and> p \<noteq> CHR ''^''
      then CHR ''*'' # c # cvtAL_from c cs
      else c # cvtAL_from c cs)"

text \<open>\<open>expr[0]\<close> of an empty \<open>std::string\<close> is the terminating null character.\<close>

definition cvtAL :: "string \<Rightarrow> string" where
  "cvtAL expr = (case expr of [] \<Rightarrow> [CHR 0x00] | c # cs \<Rightarrow> c # cvtAL_from c cs)"

text \<open>
  The operator stack is a list with the top first. \<open>pop_to_paren\<close> and \<open>pop_higher\<close> are
  the two inner \<open>while\<close> loops of \<open>cvtRPN\<close>, \<open>flush\<close> the loop after the scan.
\<close>

fun pop_to_paren :: "string \<Rightarrow> char list \<Rightarrow> string \<times> char list" where
  "pop_to_paren tmp [] = (tmp, [])"
| "pop_to_paren tmp (t # stk) =
     (if t \<noteq> CHR ''('' then pop_to_paren (tmp @ [t]) stk else (tmp, t # stk))"

fun pop_higher :: "char \<Rightarrow> string \<Rightarrow> char list \<Rightarrow> string \<times> char list" where
  "pop_higher i tmp [] = (tmp, [])"
| "pop_higher i tmp (t # stk) =
     (if prf_fn t > prf_fn i then pop_higher i (tmp @ [t]) stk else (tmp, t # stk))"

fun flush :: "string \<Rightarrow> char list \<Rightarrow> string" where
  "flush tmp [] = tmp"
| "flush tmp (t # stk) = flush (tmp @ [t]) stk"

text \<open>The scan; \<open>None\<close> is the early \<open>return "[ERROR] Invalid expression"\<close>.\<close>

fun cvtRPN_scan :: "string \<Rightarrow> string \<Rightarrow> char list \<Rightarrow> (string \<times> char list) option" where
  "cvtRPN_scan [] tmp stk = Some (tmp, stk)"
| "cvtRPN_scan (i # expr) tmp stk =
     (if isupper i \<or> isdigit i then cvtRPN_scan expr (tmp @ [i]) stk
      else if stk = [] \<or> i = CHR ''('' then cvtRPN_scan expr tmp (i # stk)
      else if i = CHR '')'' then
        (case pop_to_paren tmp stk of
           (tmp', []) \<Rightarrow> None
         | (tmp', t # stk') \<Rightarrow> cvtRPN_scan expr tmp' stk')
      else if prf_fn (hd stk) < prf_fn i then cvtRPN_scan expr tmp (i # stk)
      else (case pop_higher i tmp stk of (tmp', stk') \<Rightarrow> cvtRPN_scan expr tmp' (i # stk')))"

text \<open>
  The NOT compression pass. \<open>j\<close> is a C++ \<open>int\<close>: a 32-bit word, so that the parity test
  \<open>j & 1\<close> is that of the machine even for a run that overflows it.
\<close>

fun compress :: "string \<Rightarrow> 32 word \<Rightarrow> string \<Rightarrow> string" where
  "compress [] j rtn = (if j AND 1 \<noteq> 0 then rtn @ [quote] else rtn)"
| "compress (c # tmp) j rtn =
     (if c = quote then compress tmp (j + 1) rtn
      else compress tmp 0 ((if j AND 1 \<noteq> 0 then rtn @ [quote] else rtn) @ [c]))"

definition cvtRPN :: "string \<Rightarrow> string" where
  "cvtRPN expr =
     (case cvtRPN_scan expr [] [] of
        None \<Rightarrow> ''[ERROR] Invalid expression''
      | Some (tmp, stk) \<Rightarrow> compress (flush tmp stk) 0 [])"

section \<open>The tree builder of analyze\<close>

text \<open>
  The loop over the postfix string, on the stack of nodes (top first). A digit \<open>i\<close>
  becomes \<open>VarNode (i - '0')\<close>.
\<close>

fun build :: "string \<Rightarrow> OpNode list \<Rightarrow> error + OpNode list" where
  "build [] stk = Inr stk"
| "build (i # rpn) stk =
     (if isupper i then build rpn (VarNode i # stk)
      else if isdigit i then build rpn (VarNode (char_of ((of_char i :: nat) - 48)) # stk)
      else if i = quote then
        (case stk of
           [] \<Rightarrow> Inl InvalidNotLogic
         | l # s \<Rightarrow> build rpn (NotNode l # s))
      else if i = CHR ''*'' then
        (case stk of
           l # r # s \<Rightarrow> build rpn (AndNode l r # s)
         | _ \<Rightarrow> Inl InvalidAndLogic)
      else if i = CHR ''^'' then
        (case stk of
           l # r # s \<Rightarrow> build rpn (XorNode l r # s)
         | _ \<Rightarrow> Inl InvalidXorLogic)
      else if i = CHR ''+'' then
        (case stk of
           l # r # s \<Rightarrow> build rpn (OrNode l r # s)
         | _ \<Rightarrow> Inl InvalidOrLogic)
      else Inl InvalidLogic)"

text \<open>
  What the front of \<open>analyze\<close> (up to \<open>root.l = stk.top()\<close>) ends in: an error message,
  a root, or the read of \<open>stk.top()\<close> on an empty stack, which is outside the defined
  behaviour of \<open>std::stack\<close>.
\<close>

datatype parsed = Failed error | Root OpNode | TopOfEmptyStack

definition parse :: "string \<Rightarrow> parsed" where
  "parse input =
     (let rpn = cvtRPN (cvtAL input) in
      if (case rpn of [] \<Rightarrow> False | c # _ \<Rightarrow> c = CHR ''['') then Failed InvalidExpression
      else (case build rpn [] of
              Inl e \<Rightarrow> Failed e
            | Inr stk \<Rightarrow>
                if length stk > 1 then Failed InvalidLogic
                else (case stk of [] \<Rightarrow> TopOfEmptyStack | l # _ \<Rightarrow> Root l)))"

section \<open>tvt\<close>

text \<open>
  One row of the table: the loop over \<open>var\<close> that fills \<open>mvar\<close> (\<open>cnt\<close> runs down from
  \<open>var.size() - 1\<close>; \<open>(i div 2 ^ cnt) mod 2\<close> is \<open>(i >> cnt) & 1\<close>), then the evaluation
  of the root and the append to the global \<open>m\<close>. \<open>tvt\<close> runs the rows
  \<open>0 .. (1 << var.size()) - 1\<close> from the initial globals (an empty \<open>mvar\<close>, an empty \<open>m\<close>)
  and gives the final \<open>m\<close>.
\<close>

fun assign :: "char list \<Rightarrow> nat \<Rightarrow> int \<Rightarrow> (char \<Rightarrow> int) \<Rightarrow> (char \<Rightarrow> int)" where
  "assign [] i cnt mvar = mvar"
| "assign (j # var) i cnt mvar =
     assign var i (cnt - 1) (mvar(j := int ((i div 2 ^ nat cnt) mod 2)))"

definition tvt_row :: "char list \<Rightarrow> OpNode \<Rightarrow> nat \<Rightarrow> (char \<Rightarrow> int) \<times> nat list
    \<Rightarrow> (char \<Rightarrow> int) \<times> nat list" where
  "tvt_row var root i s =
     (let mvar = assign var i (int (length var) - 1) (fst s);
          ans = get root mvar
      in (mvar, if ans \<noteq> 0 then snd s @ [i] else snd s))"

definition tvt :: "char list \<Rightarrow> OpNode \<Rightarrow> nat list" where
  "tvt var root = snd (fold (tvt_row var root) [0..<2 ^ length var] ((\<lambda>_. 0), []))"

section \<open>analyze, up to the call of QMA\<close>

text \<open>
  What a run prints: an error message; nothing defined (the root was read from an
  empty stack); the constant line; or the table with its minterm list \<open>m\<close>, followed
  by \<open>Y = 0\<close>, by \<open>Y = 1\<close>, or by the expression that \<open>QMA\<close> is called for.
\<close>

datatype simplified = Y0 | Y1 | CallQMA

datatype outcome =
    Error error
  | Undefined
  | ConstantExpression int
  | Table "char list" OpNode "nat list" simplified

definition analyze :: "string \<Rightarrow> char list \<Rightarrow> outcome" where
  "analyze input var =
     (case parse input of
        Failed e \<Rightarrow> Error e
      | TopOfEmptyStack \<Rightarrow> Undefined
      | Root l \<Rightarrow>
          if length var = 0 then ConstantExpression (get l (\<lambda>_. 0))
          else (let m = tvt var l in
                if length m = 0 then Table var l m Y0
                else if length m = 2 ^ length var then Table var l m Y1
                else Table var l m CallQMA))"

definition main :: "string \<Rightarrow> outcome" where
  "main input = (case validate input [] of Inl e \<Rightarrow> Error e | Inr var \<Rightarrow> analyze input var)"

section \<open>QMA: the merge phase\<close>

text \<open>
  \<open>st\<close> is the \<open>unordered_map<string, unordered_set<size_t>>\<close>: a map from patterns to
  sets of minterms. \<open>st[p]\<close> on a missing key inserts an empty set and reads it.
\<close>

type_synonym cover = "string \<Rightarrow> nat set option"

definition at_st :: "cover \<Rightarrow> string \<Rightarrow> nat set" where
  "at_st st p = (case st p of None \<Rightarrow> {} | Some s \<Rightarrow> s)"

definition touch :: "cover \<Rightarrow> string \<Rightarrow> cover" where
  "touch st p = (case st p of None \<Rightarrow> st(p \<mapsto> {}) | Some s \<Rightarrow> st)"

primrec count1 :: "string \<Rightarrow> nat" where
  "count1 [] = 0"
| "count1 (i # str) = (if i = CHR ''1'' then 1 else 0) + count1 str"

text \<open>\<open>to_string n i\<close> is the string of the bits \<open>n - 1\<close> down to 0 of \<open>i\<close>.\<close>

fun to_string :: "nat \<Rightarrow> nat \<Rightarrow> string" where
  "to_string 0 i = []"
| "to_string (Suc j) i =
     (if (i div 2 ^ j) mod 2 = 1 then CHR ''1'' else CHR ''0'') # to_string j i"

fun QMA_convert :: "nat \<Rightarrow> nat list \<Rightarrow> string list \<times> cover \<Rightarrow> string list \<times> cover" where
  "QMA_convert n [] (ls, st) = (ls, st)"
| "QMA_convert n (i # m) (ls, st) =
     (let tmp = to_string n i
      in QMA_convert n m (ls @ [tmp], st(tmp \<mapsto> insert i (at_st st tmp))))"

text \<open>
  The grouping loop: \<open>grp\<close> is read with \<open>operator[]\<close> only (a missing group is empty),
  \<open>mx\<close> is an \<open>int\<close> that starts at -1.
\<close>

fun grouping :: "string list \<Rightarrow> (nat \<Rightarrow> string list) \<times> int \<Rightarrow> (nat \<Rightarrow> string list) \<times> int" where
  "grouping [] (grp, mx) = (grp, mx)"
| "grouping (i # ls) (grp, mx) =
     (let tmp = count1 i
      in grouping ls (grp(tmp := grp tmp @ [i]), if int tmp > mx then int tmp else mx))"

text \<open>
  The comparison of \<open>j\<close> with \<open>k\<close>, position by position while \<open>cnt < 2\<close>. All patterns
  have the same length; where \<open>k\<close> is shorter the model reads the null character
  that \<open>k[k.size()]\<close> is.
\<close>

fun compare :: "string \<Rightarrow> string \<Rightarrow> string \<Rightarrow> nat \<Rightarrow> string \<times> nat" where
  "compare [] k tmp cnt = (tmp, cnt)"
| "compare (a # j) k tmp cnt =
     (if cnt < 2 then
        (if a \<noteq> (case k of [] \<Rightarrow> CHR 0x00 | b # _ \<Rightarrow> b)
         then compare j (tl k) (tmp @ [CHR ''-'']) (cnt + 1)
         else compare j (tl k) (tmp @ [a]) cnt)
      else (tmp, cnt))"

text \<open>
  The state of a round: \<open>st\<close>, \<open>tls\<close>, \<open>chk\<close> (read with \<open>operator[]\<close> only: a missing key
  is \<open>false\<close>) and \<open>f\<close>. \<open>merge_pair\<close> is the body of the loop over \<open>k\<close>.
\<close>

type_synonym round_state = "cover \<times> string list \<times> (string \<Rightarrow> bool) \<times> bool"

definition merge_pair :: "string \<Rightarrow> string \<Rightarrow> round_state \<Rightarrow> round_state" where
  "merge_pair j k s =
     (case s of (st, tls, chk, f) \<Rightarrow>
        (case compare j k [] 0 of (tmp, cnt) \<Rightarrow>
           if cnt \<noteq> 1 then s
           else if st tmp = None then
             (let st1 = touch st j;
                  st2 = st1(tmp \<mapsto> at_st st1 j);
                  st3 = touch st2 k;
                  st4 = st3(tmp \<mapsto> at_st st3 tmp \<union> at_st st3 k)
              in (st4, tls @ [tmp], chk(j := True, k := True), True))
           else (st, tls, chk(j := True, k := True), True)))"

definition compare_groups :: "(nat \<Rightarrow> string list) \<Rightarrow> nat \<Rightarrow> round_state \<Rightarrow> round_state" where
  "compare_groups grp mx s0 =
     fold (\<lambda>i s. if grp i \<noteq> [] \<and> grp (i - 1) \<noteq> []
                 then fold (\<lambda>j s. fold (\<lambda>k s. merge_pair j k s) (grp (i - 1)) s) (grp i) s
                 else s)
          [1..<Suc mx] s0"

text \<open>
  One pass of the \<open>do\<close> loop. With an empty \<open>ls\<close>, \<open>mx\<close> stays -1 and the loop condition
  \<open>i <= mx\<close>, which compares a \<open>size_t\<close> with it, is true for every \<open>i\<close>: the pass does
  not end (\<open>None\<close>).
\<close>

definition round :: "string list \<Rightarrow> cover \<Rightarrow> (string list \<times> cover \<times> bool) option" where
  "round ls st =
     (case grouping ls ((\<lambda>_. []), -1) of (grp, mx) \<Rightarrow>
        if mx < 0 then None
        else (case compare_groups grp (nat mx) (st, [], (\<lambda>_. False), False) of
                (st', tls, chk, f) \<Rightarrow> Some (tls @ filter (\<lambda>i. \<not> chk i) ls, st', f)))"

partial_function (option) merge_loop :: "string list \<Rightarrow> cover \<Rightarrow> (string list \<times> cover) option" where
  "merge_loop ls st =
     (case round ls st of
        None \<Rightarrow> None
      | Some r \<Rightarrow> if snd (snd r) then merge_loop (fst r) (fst (snd r)) else Some (fst r, fst (snd r)))"

declare merge_loop.simps [code]

section \<open>gpl\<close>

text \<open>
  The counting loop: \<open>st.at(i)\<close> throws on a missing key (\<open>None\<close>); otherwise every
  minterm \<open>j\<close> of \<open>st[i]\<close> gets \<open>i\<close> into \<open>cnt[j]\<close>.
\<close>

fun count_elements :: "string list \<Rightarrow> cover \<Rightarrow> (nat \<Rightarrow> string set option)
    \<Rightarrow> (nat \<Rightarrow> string set option) option" where
  "count_elements [] st cnt = Some cnt"
| "count_elements (i # ls) st cnt =
     (case st i of
        None \<Rightarrow> None
      | Some s \<Rightarrow>
          count_elements ls st
            (\<lambda>j. if j \<in> s then Some (insert i (case cnt j of None \<Rightarrow> {} | Some t \<Rightarrow> t))
                 else cnt j))"

text \<open>
  The selection loop iterates over unordered containers, whose iteration order the
  language leaves open; the loop is therefore a relation. Scanning \<open>cnt\<close> with a strict
  \<open><\<close> from the largest \<open>size_t\<close> keeps the first key of least size: \<open>mns\<close> is any key
  of least size. Scanning \<open>cnt[mns]\<close> with a strict \<open>>\<close> from 0 keeps the first pattern
  of greatest size, or the empty string when every size is 0. Inside \<open>gpl\<close>, \<open>st\<close> is
  read with \<open>operator[]\<close> only, so it is the function \<open>at_st st\<close> here.
\<close>

definition pick_max :: "(string \<Rightarrow> nat set) \<Rightarrow> string set \<Rightarrow> string \<Rightarrow> bool" where
  "pick_max st c ms =
     (if (\<forall>i\<in>c. card (st i) = 0) then ms = []
      else ms \<in> c \<and> (\<forall>i\<in>c. card (st i) \<le> card (st ms)))"

inductive gpl_loop :: "(nat \<Rightarrow> string set option) \<Rightarrow> (string \<Rightarrow> nat set)
    \<Rightarrow> string list \<Rightarrow> string list \<Rightarrow> bool" where
  gpl_done: "cnt = Map.empty \<Longrightarrow> gpl_loop cnt st rtn rtn"
| gpl_step: "cnt mns = Some c \<Longrightarrow>
     (\<And>i s. cnt i = Some s \<Longrightarrow> card c \<le> card s) \<Longrightarrow>
     pick_max st c ms \<Longrightarrow>
     gpl_loop (\<lambda>i. if i \<in> st ms then None else cnt i)
              (\<lambda>p. if p = ms then {} else st p - st ms)
              (rtn @ [ms]) res \<Longrightarrow>
     gpl_loop cnt st rtn res"

definition gpl :: "string list \<Rightarrow> cover \<Rightarrow> string list \<Rightarrow> bool" where
  "gpl ls st sl = (\<exists>cnt. count_elements ls st Map.empty = Some cnt \<and> gpl_loop cnt (at_st st) [] sl)"

text \<open>
  \<open>QMA\<close> on the globals \<open>var\<close> and \<open>m\<close>: the merge loop ends with \<open>ls\<close> and \<open>st\<close>, and \<open>sl\<close>
  is a list that \<open>gpl(ls, st)\<close> can return.
\<close>

definition QMA_run :: "char list \<Rightarrow> nat list \<Rightarrow> string list \<Rightarrow> cover \<Rightarrow> string list \<Rightarrow> bool" where
  "QMA_run var m ls st sl =
     (merge_loop (fst (QMA_convert (length var) m ([], Map.empty)))
                 (snd (QMA_convert (length var) m ([], Map.empty))) = Some (ls, st)
      \<and> gpl ls st sl)"

definition QMA :: "char list \<Rightarrow> nat list \<Rightarrow> string list \<Rightarrow> bool" where
  "QMA var m sl = (\<exists>ls st. QMA_run var m ls st sl)"

section \<open>The rendering at the end of analyze\<close>

fun render_term :: "char list \<Rightarrow> string \<Rightarrow> string" where
  "render_term [] p = []"
| "render_term (j # var) p =
     (case p of
        [] \<Rightarrow> []
      | c # p' \<Rightarrow>
          (if c = CHR ''0'' then [j, quote] else if c = CHR ''1'' then [j] else [])
          @ render_term var p')"

fun join_plus :: "string list \<Rightarrow> string" where
  "join_plus [] = []"
| "join_plus [t] = t"
| "join_plus (t # ts) = t @ CHR ''+'' # join_plus ts"

definition render :: "char list \<Rightarrow> string list \<Rightarrow> string" where
  "render var sl = join_plus (sort (map (render_term var) sl))"

section \<open>Notions the statements use\<close>

text \<open>
  A postfix stream read as tokens with their runs of NOT markers: \<open>k0\<close> markers in
  front, then every other character \<open>c\<close> followed by its \<open>k\<close> markers. Every string is
  such a stream in exactly one way, and the runs are then the maximal ones.
  \<open>collapsed\<close> keeps one marker of an odd run and none of an even one.
\<close>

definition par :: "nat \<Rightarrow> string" where
  "par k = (if odd k then [quote] else [])"

definition stream :: "nat \<Rightarrow> (char \<times> nat) list \<Rightarrow> string" where
  "stream k0 toks = replicate k0 quote @ concat (map (\<lambda>(c, k). c # replicate k quote) toks)"

definition collapsed :: "nat \<Rightarrow> (char \<times> nat) list \<Rightarrow> string" where
  "collapsed k0 toks = par k0 @ concat (map (\<lambda>(c, k). c # par k) toks)"

text \<open>
  The postfix stream of an input leaves no operand: \<open>cvtRPN\<close> gave no error string and
  the builder's loop ended without an error on an empty stack.
\<close>

definition leaves_no_operand :: "string \<Rightarrow> bool" where
  "leaves_no_operand input =
     (let rpn = cvtRPN (cvtAL input)
      in \<not> (case rpn of [] \<Rightarrow> False | c # _ \<Rightarrow> c = CHR ''['') \<and> build rpn [] = Inr [])"

text \<open>The assignment of row \<open>i\<close> of the table, from the initial (empty) \<open>mvar\<close>.\<close>

definition assignment :: "char list \<Rightarrow> nat \<Rightarrow> (char \<Rightarrow> int)" where
  "assignment var i = assign var i (int (length var) - 1) (\<lambda>_. 0)"

text \<open>
  Implicant patterns. A pattern of \<open>n\<close> positions is a string over \<open>0\<close>, \<open>1\<close>, \<open>-\<close>; it
  matches a bit string when it agrees with it on every position that is not \<open>-\<close>;
  its cube is the set of the indices below \<open>2^n\<close> whose bit strings it matches.
\<close>

definition wf_pat :: "nat \<Rightarrow> string \<Rightarrow> bool" where
  "wf_pat n p = (length p = n \<and> set p \<subseteq> {CHR ''0'', CHR ''1'', CHR ''-''})"

definition matches :: "string \<Rightarrow> string \<Rightarrow> bool" where
  "matches p q = list_all2 (\<lambda>a b. a = CHR ''-'' \<or> a = b) p q"

definition cube :: "nat \<Rightarrow> string \<Rightarrow> nat set" where
  "cube n p = {i. i < 2 ^ n \<and> matches p (to_string n i)}"

definition dashes :: "string \<Rightarrow> nat" where
  "dashes p = length (filter (\<lambda>c. c = CHR ''-'') p)"

text \<open>
  The adjacency of the specification: the two patterns have \<open>-\<close> in the same positions
  and differ in exactly one of the other positions. \<open>dashed\<close> puts \<open>-\<close> at a position.
\<close>

definition adjacent :: "string \<Rightarrow> string \<Rightarrow> nat \<Rightarrow> bool" where
  "adjacent j k l =
     (length j = length k \<and> l < length j \<and> j ! l \<noteq> k ! l
      \<and> j ! l \<noteq> CHR ''-'' \<and> k ! l \<noteq> CHR ''-''
      \<and> (\<forall>l' < length j. l' \<noteq> l \<longrightarrow> j ! l' = k ! l'))"

definition dashed :: "string \<Rightarrow> nat \<Rightarrow> string" where
  "dashed j l = j[l := CHR ''-'']"

text \<open>
  An implicant of the minterm set \<open>M\<close> is a pattern whose cube lies in \<open>M\<close>. It is
  prime when putting \<open>-\<close> at any further position leaves the implicants.
\<close>

definition implicant :: "nat \<Rightarrow> nat set \<Rightarrow> string \<Rightarrow> bool" where
  "implicant n M p = (wf_pat n p \<and> cube n p \<subseteq> M)"

definition prime :: "nat \<Rightarrow> nat set \<Rightarrow> string \<Rightarrow> bool" where
  "prime n M p =
     (implicant n M p
      \<and> (\<forall>xs a ys. p = xs @ a # ys \<and> a \<noteq> CHR ''-'' \<longrightarrow> \<not> implicant n M (xs @ CHR ''-'' # ys)))"

text \<open>
  The test the merge loop makes on a pair, and the pattern it builds: the comparison
  counted exactly one differing position.
\<close>

definition mergeable :: "string \<Rightarrow> string \<Rightarrow> bool" where
  "mergeable j k = (snd (compare j k [] 0) = 1)"

definition merged :: "string \<Rightarrow> string \<Rightarrow> string" where
  "merged j k = fst (compare j k [] 0)"

text \<open>
  The states at the head of the \<open>do\<close> loop of \<open>QMA\<close> on \<open>n\<close> variables and the minterm
  list \<open>m\<close>, with the number of passes made so far.
\<close>

inductive pass :: "nat \<Rightarrow> nat list \<Rightarrow> nat \<Rightarrow> string list \<Rightarrow> cover \<Rightarrow> bool" where
  pass_first: "QMA_convert n m ([], Map.empty) = (ls, st) \<Longrightarrow> pass n m 0 ls st"
| pass_next: "pass n m r ls st \<Longrightarrow> round ls st = Some (ls', st', True) \<Longrightarrow> pass n m (Suc r) ls' st'"

text \<open>The pairs that a pass of the merge loop compares, in the order of the comparisons.\<close>

definition pairs_of :: "(nat \<Rightarrow> string list) \<Rightarrow> nat \<Rightarrow> (string \<times> string) list" where
  "pairs_of grp mx = concat (map (\<lambda>i. List.product (grp i) (grp (i - 1))) [1..<Suc mx])"

text \<open>The pairs of patterns of \<open>ls\<close> that lie in adjacent groups (\<open>j\<close> has one more \<open>1\<close>).\<close>

definition visited :: "string list \<Rightarrow> (string \<times> string) set" where
  "visited ls = {(j, k). j \<in> set ls \<and> k \<in> set ls \<and> count1 j = Suc (count1 k)}"

text \<open>
  The state at the head of pass \<open>r\<close> (counted from 0) on the minterm set \<open>M\<close>: \<open>st\<close> holds
  the implicants with at most \<open>r\<close> dashes, each with its cube; \<open>ls\<close> holds the implicants
  with exactly \<open>r\<close> dashes and the prime ones with fewer.
\<close>

definition merge_inv :: "nat \<Rightarrow> nat set \<Rightarrow> nat \<Rightarrow> string list \<Rightarrow> cover \<Rightarrow> bool" where
  "merge_inv n M r ls st =
     (dom st = {p. implicant n M p \<and> dashes p \<le> r}
      \<and> (\<forall>p \<in> dom st. st p = Some (cube n p))
      \<and> set ls = {p. implicant n M p \<and> dashes p \<le> r \<and> (dashes p = r \<or> prime n M p)})"

text \<open>
  The invariant of the selection loop of \<open>gpl\<close>, for the list \<open>ls\<close> and the coverage sets
  \<open>st0\<close> it was called with: every remaining minterm of \<open>cnt\<close> still lies in the current
  set of each pattern counted for it, and every minterm is either still in \<open>cnt\<close> or
  covered by a pattern of \<open>rtn\<close>.
\<close>

definition gpl_inv :: "string list \<Rightarrow> (string \<Rightarrow> nat set) \<Rightarrow> (nat \<Rightarrow> string set option)
    \<Rightarrow> (string \<Rightarrow> nat set) \<Rightarrow> string list \<Rightarrow> bool" where
  "gpl_inv ls st0 cnt st rtn =
     (finite (dom cnt)
      \<and> (\<forall>j c. cnt j = Some c \<longrightarrow> c \<noteq> {} \<and> finite c \<and> c \<subseteq> set ls \<and> (\<forall>p \<in> c. j \<in> st p))
      \<and> (\<forall>p. st p \<subseteq> st0 p)
      \<and> (\<forall>p \<in> set ls. finite (st0 p))
      \<and> set rtn \<subseteq> set ls
      \<and> (\<forall>j. (\<exists>p \<in> set ls. j \<in> st0 p) \<longrightarrow> j \<in> dom cnt \<or> (\<exists>p \<in> set rtn. j \<in> st0 p)))"

text \<open>An assignment agrees with a pattern on the positions that are not \<open>-\<close>.\<close>

definition consistent :: "char list \<Rightarrow> string \<Rightarrow> (char \<Rightarrow> int) \<Rightarrow> bool" where
  "consistent var p mvar =
     (\<forall>k < length var. (p ! k = CHR ''1'' \<longrightarrow> mvar (var ! k) = 1)
                        \<and> (p ! k = CHR ''0'' \<longrightarrow> mvar (var ! k) = 0))"

text \<open>
  Parentheses of an input: \<open>balance d s\<close> scans \<open>s\<close> from depth \<open>d\<close>; it is \<open>None\<close> when a
  \<open>)\<close> comes at depth 0 (no matching \<open>(\<close>), and \<open>Some d'\<close> with \<open>d' > 0\<close> when \<open>d'\<close>
  parentheses are never closed.
\<close>

fun balance :: "nat \<Rightarrow> string \<Rightarrow> nat option" where
  "balance d [] = Some d"
| "balance d (c # s) =
     (if c = CHR ''('' then balance (Suc d) s
      else if c = CHR '')'' then (case d of 0 \<Rightarrow> None | Suc d' \<Rightarrow> balance d' s)
      else balance d s)"

definition paren :: "char \<Rightarrow> bool" where
  "paren c = (c = CHR ''('' \<or> c = CHR '')'')"

text \<open>
  A state of the scan of \<open>cvtRPN\<close> from which a parenthesis reaches the postfix string:
  one is in \<open>tmp\<close> already, or a \<open>)\<close> is on the stack.
\<close>

definition poisoned :: "string \<Rightarrow> char list \<Rightarrow> bool" where
  "poisoned tmp stk = ((\<exists>c \<in> set tmp. paren c) \<or> CHR '')'' \<in> set stk)"

text \<open>
  Rendered expressions. A literal is a variable with a flag for its negation, a
  product term a list of literals, a sum a list of terms. \<open>lits var p\<close> are the literals
  that the rendering loop of \<open>analyze\<close> writes for the pattern \<open>p\<close>.
\<close>

type_synonym literal = "char \<times> bool"

definition lit_str :: "literal \<Rightarrow> string" where
  "lit_str l = (if snd l then [fst l, quote] else [fst l])"

definition term_str :: "literal list \<Rightarrow> string" where
  "term_str t = concat (map lit_str t)"

fun lits :: "char list \<Rightarrow> string \<Rightarrow> literal list" where
  "lits [] p = []"
| "lits (j # var) [] = []"
| "lits (j # var) (c # p) =
     (if c = CHR ''0'' then [(j, True)] else if c = CHR ''1'' then [(j, False)] else [])
     @ lits var p"

definition lit_holds :: "(char \<Rightarrow> int) \<Rightarrow> literal \<Rightarrow> bool" where
  "lit_holds mvar l = (mvar (fst l) = (if snd l then 0 else 1))"

definition sop_holds :: "(char \<Rightarrow> int) \<Rightarrow> literal list list \<Rightarrow> bool" where
  "sop_holds mvar ts = (\<exists>t \<in> set ts. \<forall>l \<in> set t. lit_holds mvar l)"

text \<open>
  The strings of a sum on its way through \<open>cvtAL\<close> and \<open>cvtRPN\<close>: a term with \<open>*\<close> in front
  of every literal, a term with \<open>*\<close> between its literals, and the postfix form.
\<close>

definition star_term :: "literal list \<Rightarrow> string" where
  "star_term t = concat (map (\<lambda>l. CHR ''*'' # lit_str l) t)"

definition al_term :: "literal list \<Rightarrow> string" where
  "al_term t = (case t of [] \<Rightarrow> [] | l # t' \<Rightarrow> lit_str l @ star_term t')"

definition rpn_term :: "literal list \<Rightarrow> string" where
  "rpn_term t = term_str t @ replicate (length t - 1) (CHR ''*'')"

definition rpn_sop :: "literal list list \<Rightarrow> string" where
  "rpn_sop ts = concat (map rpn_term ts) @ replicate (length ts - 1) (CHR ''+'')"

text \<open>The operator stack of \<open>cvtRPN\<close> inside a sum: a pending NOT, then \<open>a\<close> ANDs, then \<open>b\<close> ORs.\<close>

definition ops_stack :: "bool \<Rightarrow> nat \<Rightarrow> nat \<Rightarrow> char list" where
  "ops_stack q a b = (if q then [quote] else []) @ replicate a (CHR ''*'') @ replicate b (CHR ''+'')"

text \<open>The postfix form as a stream of tokens, each with its run of NOTs.\<close>

definition lit_tok :: "literal \<Rightarrow> char \<times> nat" where
  "lit_tok l = (fst l, if snd l then 1 else 0)"

definition rpn_toks :: "literal list list \<Rightarrow> (char \<times> nat) list" where
  "rpn_toks ts =
     concat (map (\<lambda>t. map lit_tok t @ replicate (length t - 1) (CHR ''*'', 0)) ts)
     @ replicate (length ts - 1) (CHR ''+'', 0)"

text \<open>
  The trees that the builder makes of the postfix form: the node of a literal, and the
  node that a run of \<open>*\<close> (of \<open>+\<close>) makes of the nodes on the stack, top first.
\<close>

definition lit_node :: "literal \<Rightarrow> OpNode" where
  "lit_node l = (if snd l then NotNode (VarNode (fst l)) else VarNode (fst l))"

fun fold_and :: "OpNode \<Rightarrow> OpNode list \<Rightarrow> OpNode" where
  "fold_and n [] = n"
| "fold_and n (r # s) = fold_and (AndNode n r) s"

fun fold_or :: "OpNode \<Rightarrow> OpNode list \<Rightarrow> OpNode" where
  "fold_or n [] = n"
| "fold_or n (r # s) = fold_or (OrNode n r) s"

definition term_node :: "literal list \<Rightarrow> OpNode" where
  "term_node t = fold_and (hd (rev (map lit_node t))) (tl (rev (map lit_node t)))"

definition sop_node :: "literal list list \<Rightarrow> OpNode" where
  "sop_node ts = fold_or (hd (rev (map term_node ts))) (tl (rev (map term_node ts)))"

section \<open>The NOT compression pass\<close>

lemma flush_append: "flush tmp stk = tmp @ stk"
  by (induction stk arbitrary: tmp) simp_all

lemma word_parity: "((of_nat k :: 32 word) AND 1 \<noteq> 0) = odd k"
  by (simp add: and_one_eq mod_2_eq_odd word_of_nat_eq_0_iff flip: even_iff_mod_2_eq_zero)

lemma compress_run:
  "compress (replicate k quote @ rest) (of_nat a) rtn = compress rest (of_nat (a + k)) rtn"
proof (induction k arbitrary: a)
  case 0
  show ?case by simp
next
  case (Suc k)
  have "compress (replicate (Suc k) quote @ rest) (of_nat a) rtn
      = compress (replicate k quote @ rest) (of_nat (Suc a)) rtn"
    by (simp add: add.commute)
  also have "\<dots> = compress rest (of_nat (Suc a + k)) rtn"
    by (rule Suc.IH)
  finally show ?case by simp
qed

lemma compress_token:
  "c \<noteq> quote \<Longrightarrow> compress (c # rest) (of_nat a) rtn = compress rest 0 (rtn @ par a @ [c])"
  by (simp add: word_parity par_def del: of_nat_eq_0_iff)

lemma compress_end: "compress [] (of_nat a) rtn = rtn @ par a"
  by (simp add: word_parity par_def)

lemma compress_stream:
  "\<forall>(c, k) \<in> set toks. c \<noteq> quote \<Longrightarrow>
   compress (stream k0 toks) 0 rtn = rtn @ collapsed k0 toks"
proof (induction toks arbitrary: k0 rtn)
  case Nil
  have "compress (replicate k0 quote @ []) (of_nat 0) rtn = compress [] (of_nat (0 + k0)) rtn"
    by (rule compress_run)
  then show ?case
    using compress_end [of k0 rtn] by (simp add: stream_def collapsed_def)
next
  case (Cons t toks)
  obtain c k where t: "t = (c, k)" by (cases t)
  from Cons.prems t have c: "c \<noteq> quote" and rest: "\<forall>(c, k) \<in> set toks. c \<noteq> quote"
    by auto
  have "compress (stream k0 (t # toks)) 0 rtn
      = compress (replicate k0 quote @ c # stream k toks) (of_nat 0) rtn"
    by (simp add: stream_def t)
  also have "\<dots> = compress (c # stream k toks) (of_nat (0 + k0)) rtn"
    by (rule compress_run)
  also have "\<dots> = compress (stream k toks) 0 (rtn @ par k0 @ [c])"
    using compress_token [OF c] by simp
  also have "\<dots> = (rtn @ par k0 @ [c]) @ collapsed k toks"
    by (rule Cons.IH [OF rest])
  finally show ?case by (simp add: collapsed_def t)
qed

text \<open>
  C9. The pass after the scan of \<open>cvtRPN\<close> runs \<open>compress\<close> from \<open>j = 0\<close> and an empty
  \<open>rtn\<close>. On a stream read as tokens with their maximal runs of NOT markers, every run
  of \<open>k\<close> markers comes out as one marker when \<open>k\<close> is odd and as none when \<open>k\<close> is even,
  and every other character comes out unchanged, at its place between the runs.
\<close>

theorem not_run_parity_collapse:
  assumes "\<forall>(c, k) \<in> set toks. c \<noteq> quote"
  shows "compress (stream k0 toks) 0 [] = collapsed k0 toks"
  using compress_stream [OF assms, of k0 "[]"] by simp

theorem not_run_parity_collapse_witness:
  "compress [CHR ''A'', quote, quote, quote, CHR ''B'', quote, quote, CHR ''*''] 0 []
     = [CHR ''A'', quote, CHR ''B'', CHR ''*'']"
  using not_run_parity_collapse [of "[(CHR ''A'', 3), (CHR ''B'', 2), (CHR ''*'', 0)]" 0]
  by (simp add: stream_def collapsed_def par_def quote_def numeral_3_eq_3 numeral_2_eq_2)

section \<open>validate and the front of analyze\<close>

lemma set_insert_sorted: "sorted var \<Longrightarrow> distinct var \<Longrightarrow> sorted (set_insert c var) \<and> distinct (set_insert c var)"
  by (simp add: set_insert_def sorted_insort distinct_insort)

lemma set_set_insert: "set (set_insert c var) = insert c (set var)"
  by (simp add: set_insert_def insert_absorb set_insort_key)

lemma validate_var:
  "validate input v0 = Inr var \<Longrightarrow> sorted v0 \<Longrightarrow> distinct v0 \<Longrightarrow>
   sorted var \<and> distinct var \<and> set var = set v0 \<union> {c \<in> set input. isupper c}"
proof (induction input arbitrary: v0)
  case Nil
  then show ?case by simp
next
  case (Cons i input)
  show ?case
  proof (cases "isupper i")
    case True
    with Cons.prems have "validate input (set_insert i v0) = Inr var" by simp
    from Cons.IH [OF this] set_insert_sorted [OF Cons.prems(2,3)] True
    show ?thesis by (auto simp: set_set_insert)
  next
    case False
    with Cons.prems have "validate input v0 = Inr var" by (simp split: if_splits)
    from Cons.IH [OF this Cons.prems(2,3)] False
    show ?thesis by auto
  qed
qed

lemma validate_ok_iff: "(\<exists>var. validate input v0 = Inr var) \<or> (\<exists>c. validate input v0 = Inl (InvalidCharacter c))"
  by (induction input arbitrary: v0) auto

text \<open>
  C10. The only check between the builder's loop and \<open>root.l = stk.top()\<close> is
  \<open>stk.size() > 1\<close>. A run reads the top of an empty stack, without any error message,
  exactly when the input passes \<open>validate\<close> and its postfix stream leaves no operand;
  the input \<open>()\<close>, whose postfix stream is empty, is such an input.
\<close>

theorem builder_reads_empty_stack:
  "(main input = Undefined) = ((\<exists>var. validate input [] = Inr var) \<and> leaves_no_operand input)"
proof (cases "validate input []")
  case (Inl e)
  then show ?thesis by (simp add: main_def)
next
  case (Inr var)
  then show ?thesis
    by (auto simp: main_def analyze_def parse_def leaves_no_operand_def Let_def
        split: sum.splits list.splits if_splits)
qed

theorem builder_reads_empty_stack_witness:
  "main ''()'' = Undefined \<and> validate ''()'' [] = Inr [] \<and> cvtRPN (cvtAL ''()'') = []
     \<and> leaves_no_operand ''()''"
  using builder_reads_empty_stack [of "''()''"]
  by (simp add: leaves_no_operand_def cvtAL_def cvtRPN_def isupper_def isdigit_def quote_def)

section \<open>Unbalanced parentheses\<close>

lemma balance_cvtAL_from: "balance d (cvtAL_from p s) = balance d s"
  by (induction s arbitrary: p d) (auto simp: isupper_def isdigit_def split: nat.splits)

lemma balance_cvtAL: "input \<noteq> [] \<Longrightarrow> balance d (cvtAL input) = balance d input"
  by (cases input) (simp_all add: cvtAL_def balance_cvtAL_from split: nat.splits)

lemma pop_to_paren_append: "pop_to_paren tmp stk = (tmp', stk') \<Longrightarrow> tmp' @ stk' = tmp @ stk"
  by (induction stk arbitrary: tmp) (auto split: if_splits)

lemma pop_to_paren_prefix: "pop_to_paren tmp stk = (tmp', stk') \<Longrightarrow> \<exists>ops. tmp' = tmp @ ops \<and> CHR ''('' \<notin> set ops"
proof (induction stk arbitrary: tmp)
  case Nil
  then show ?case by simp
next
  case (Cons t stk)
  show ?case
  proof (cases "t = CHR ''(''")
    case True
    with Cons.prems show ?thesis by simp
  next
    case False
    with Cons.prems have "pop_to_paren (tmp @ [t]) stk = (tmp', stk')" by simp
    from Cons.IH [OF this] obtain ops where "tmp' = (tmp @ [t]) @ ops" "CHR ''('' \<notin> set ops" by blast
    with False have "tmp' = tmp @ (t # ops) \<and> CHR ''('' \<notin> set (t # ops)" by simp
    then show ?thesis by blast
  qed
qed

lemma pop_to_paren_top: "pop_to_paren tmp stk = (tmp', t # stk') \<Longrightarrow> t = CHR ''(''"
  by (induction stk arbitrary: tmp) (auto split: if_splits)

lemma pop_higher_append: "pop_higher i tmp stk = (tmp', stk') \<Longrightarrow> tmp' @ stk' = tmp @ stk"
  by (induction stk arbitrary: tmp) (auto split: if_splits)

lemma pop_higher_prefix: "pop_higher i tmp stk = (tmp', stk') \<Longrightarrow> \<exists>ops. tmp' = tmp @ ops"
proof (induction stk arbitrary: tmp)
  case Nil
  then show ?case by simp
next
  case (Cons t stk)
  show ?case
  proof (cases "prf_fn t > prf_fn i")
    case True
    with Cons.prems have "pop_higher i (tmp @ [t]) stk = (tmp', stk')" by simp
    from Cons.IH [OF this] obtain ops where "tmp' = (tmp @ [t]) @ ops" by blast
    then have "tmp' = tmp @ (t # ops)" by simp
    then show ?thesis by blast
  next
    case False
    with Cons.prems show ?thesis by simp
  qed
qed

text \<open>Moving characters from the stack to \<open>tmp\<close> keeps a state poisoned.\<close>

lemma poisoned_moved:
  assumes "poisoned tmp stk" and "tmp' @ stk' = tmp @ stk" and "tmp' = tmp @ ops"
  shows "poisoned tmp' stk'"
proof -
  from assms(2,3) have stk: "stk = ops @ stk'" by simp
  from assms(1) show ?thesis
    unfolding poisoned_def assms(3) stk by (auto simp: paren_def)
qed

lemma poisoned_scan:
  "poisoned tmp stk \<Longrightarrow>
   cvtRPN_scan expr tmp stk = None
   \<or> (\<exists>tmp' stk'. cvtRPN_scan expr tmp stk = Some (tmp', stk') \<and> poisoned tmp' stk')"
proof (induction expr arbitrary: tmp stk)
  case Nil
  then show ?case by simp
next
  case (Cons i expr)
  note p = Cons.prems
  consider (operand) "isupper i \<or> isdigit i"
    | (push) "\<not> (isupper i \<or> isdigit i)" "stk = [] \<or> i = CHR ''(''"
    | (close) "\<not> (isupper i \<or> isdigit i)" "\<not> (stk = [] \<or> i = CHR ''('')" "i = CHR '')''"
    | (lower) "\<not> (isupper i \<or> isdigit i)" "\<not> (stk = [] \<or> i = CHR ''('')" "i \<noteq> CHR '')''"
        "prf_fn (hd stk) < prf_fn i"
    | (higher) "\<not> (isupper i \<or> isdigit i)" "\<not> (stk = [] \<or> i = CHR ''('')" "i \<noteq> CHR '')''"
        "\<not> prf_fn (hd stk) < prf_fn i"
    by blast
  then show ?case
  proof cases
    case operand
    from p have "poisoned (tmp @ [i]) stk" by (auto simp: poisoned_def)
    from Cons.IH [OF this] operand show ?thesis by simp
  next
    case push
    from p have "poisoned tmp (i # stk)" by (auto simp: poisoned_def)
    from Cons.IH [OF this] push show ?thesis by simp
  next
    case close
    obtain tmp' stk' where pp: "pop_to_paren tmp stk = (tmp', stk')"
      by (cases "pop_to_paren tmp stk")
    show ?thesis
    proof (cases stk')
      case Nil
      with close pp show ?thesis by simp
    next
      case (Cons t stk'')
      from pop_to_paren_prefix [OF pp] obtain ops where ops: "tmp' = tmp @ ops" by blast
      from poisoned_moved [OF p pop_to_paren_append [OF pp] ops]
      have "poisoned tmp' (t # stk'')" by (simp add: Cons)
      moreover from pp Cons have "t = CHR ''(''" by (auto dest: pop_to_paren_top)
      ultimately have "poisoned tmp' stk''" by (auto simp: poisoned_def)
      from Cons.IH [OF this] close pp Cons show ?thesis by simp
    qed
  next
    case lower
    from p have "poisoned tmp (i # stk)" by (auto simp: poisoned_def)
    from Cons.IH [OF this] lower show ?thesis by simp
  next
    case higher
    obtain tmp' stk' where pp: "pop_higher i tmp stk = (tmp', stk')"
      by (cases "pop_higher i tmp stk")
    from pop_higher_prefix [OF pp] obtain ops where ops: "tmp' = tmp @ ops" by blast
    from poisoned_moved [OF p pop_higher_append [OF pp] ops]
    have "poisoned tmp' (i # stk')" by (auto simp: poisoned_def)
    from Cons.IH [OF this] higher pp show ?thesis by simp
  qed
qed

lemma paren_not_operand: "paren c \<Longrightarrow> \<not> isupper c \<and> \<not> isdigit c"
  by (auto simp: paren_def isupper_def isdigit_def)

lemma poisoned_paren: "poisoned tmp stk \<Longrightarrow> \<exists>c \<in> set (tmp @ stk). paren c"
  by (auto simp: poisoned_def paren_def)

lemma balance_other: "\<not> paren c \<Longrightarrow> balance d (c # s) = balance d s"
  by (simp add: paren_def)

lemma unbalanced_scan:
  "CHR '')'' \<notin> set stk \<Longrightarrow> length (filter (\<lambda>c. c = CHR ''('') stk) = d \<Longrightarrow>
   balance d expr \<noteq> Some 0 \<Longrightarrow>
   cvtRPN_scan expr tmp stk = None
   \<or> (\<exists>tmp' stk'. cvtRPN_scan expr tmp stk = Some (tmp', stk') \<and> (\<exists>c \<in> set (tmp' @ stk'). paren c))"
proof (induction expr arbitrary: tmp stk d)
  case Nil
  then have "filter (\<lambda>c. c = CHR ''('') stk \<noteq> []" by auto
  then have "CHR ''('' \<in> set stk" by (auto simp: filter_empty_conv)
  then show ?case by (auto simp: paren_def)
next
  case (Cons i expr)
  note clean = Cons.prems(1) and d = Cons.prems(2) and b = Cons.prems(3)
  consider (operand) "isupper i \<or> isdigit i"
    | (lparen) "\<not> (isupper i \<or> isdigit i)" "i = CHR ''(''"
    | (first) "\<not> (isupper i \<or> isdigit i)" "i \<noteq> CHR ''(''" "stk = []"
    | (close) "\<not> (isupper i \<or> isdigit i)" "i \<noteq> CHR ''(''" "stk \<noteq> []" "i = CHR '')''"
    | (lower) "\<not> (isupper i \<or> isdigit i)" "i \<noteq> CHR ''(''" "stk \<noteq> []" "i \<noteq> CHR '')''"
        "prf_fn (hd stk) < prf_fn i"
    | (higher) "\<not> (isupper i \<or> isdigit i)" "i \<noteq> CHR ''(''" "stk \<noteq> []" "i \<noteq> CHR '')''"
        "\<not> prf_fn (hd stk) < prf_fn i"
    by blast
  then show ?case
  proof cases
    case operand
    with paren_not_operand [of i] have np: "\<not> paren i" by blast
    from b have "balance d expr \<noteq> Some 0" unfolding balance_other [OF np] .
    from Cons.IH [OF clean d this, of "tmp @ [i]"] operand show ?thesis by simp
  next
    case lparen
    from clean have 1: "CHR '')'' \<notin> set (i # stk)" by (simp add: lparen)
    from d have 2: "length (filter (\<lambda>c. c = CHR ''('') (i # stk)) = Suc d" by (simp add: lparen)
    from b have 3: "balance (Suc d) expr \<noteq> Some 0" by (simp add: lparen)
    from Cons.IH [OF 1 2 3, of tmp] lparen show ?thesis by simp
  next
    case first
    show ?thesis
    proof (cases "i = CHR '')''")
      case True
      then have "poisoned tmp (i # stk)" by (simp add: poisoned_def)
      from poisoned_scan [OF this, of expr] first show ?thesis
        by (auto dest: poisoned_paren)
    next
      case False
      with first have np: "\<not> paren i" by (simp add: paren_def)
      from False first have 1: "CHR '')'' \<notin> set (i # stk)" by simp
      from first d have 2: "length (filter (\<lambda>c. c = CHR ''('') (i # stk)) = d" by simp
      from b have 3: "balance d expr \<noteq> Some 0" unfolding balance_other [OF np] .
      from Cons.IH [OF 1 2 3, of tmp] first show ?thesis by simp
    qed
  next
    case close
    obtain tmp' stk' where pp: "pop_to_paren tmp stk = (tmp', stk')"
      by (cases "pop_to_paren tmp stk")
    show ?thesis
    proof (cases stk')
      case Nil
      with close pp show ?thesis by simp
    next
      case (Cons t stk'')
      with pp have t: "t = CHR ''(''" by (auto dest: pop_to_paren_top)
      from pop_to_paren_prefix [OF pp] obtain ops where
        ops: "tmp' = tmp @ ops" "CHR ''('' \<notin> set ops" by blast
      from pop_to_paren_append [OF pp] ops(1) Cons t have stk: "stk = ops @ CHR ''('' # stk''"
        by simp
      from ops(2) have "filter (\<lambda>c. c = CHR ''('') ops = []" by (auto simp: filter_empty_conv)
      with d stk have dd: "d = Suc (length (filter (\<lambda>c. c = CHR ''('') stk''))" by simp
      from clean stk have 1: "CHR '')'' \<notin> set stk''" by simp
      from b close(4) dd have 3: "balance (length (filter (\<lambda>c. c = CHR ''('') stk'')) expr \<noteq> Some 0"
        by simp
      from Cons.IH [OF 1 refl 3, of tmp'] close pp Cons show ?thesis by simp
    qed
  next
    case lower
    then have np: "\<not> paren i" by (simp add: paren_def)
    from clean lower have 1: "CHR '')'' \<notin> set (i # stk)" by simp
    from d lower have 2: "length (filter (\<lambda>c. c = CHR ''('') (i # stk)) = d" by simp
    from b have 3: "balance d expr \<noteq> Some 0" unfolding balance_other [OF np] .
    from Cons.IH [OF 1 2 3, of tmp] lower show ?thesis by simp
  next
    case higher
    then have np: "\<not> paren i" by (simp add: paren_def)
    obtain tmp' stk' where pp: "pop_higher i tmp stk = (tmp', stk')"
      by (cases "pop_higher i tmp stk")
    from pop_higher_prefix [OF pp] obtain ops where ops: "tmp' = tmp @ ops" by blast
    from pop_higher_append [OF pp] ops have stk: "stk = ops @ stk'" by simp
    show ?thesis
    proof (cases "CHR ''('' \<in> set ops")
      case True
      with ops have "poisoned tmp' (i # stk')" by (auto simp: poisoned_def paren_def)
      from poisoned_scan [OF this, of expr] higher pp show ?thesis
        by (auto dest: poisoned_paren)
    next
      case False
      then have "filter (\<lambda>c. c = CHR ''('') ops = []" by (auto simp: filter_empty_conv)
      with d stk higher have 2: "length (filter (\<lambda>c. c = CHR ''('') (i # stk')) = d" by simp
      from clean stk higher have 1: "CHR '')'' \<notin> set (i # stk')" by simp
      from b have 3: "balance d expr \<noteq> Some 0" unfolding balance_other [OF np] .
      from Cons.IH [OF 1 2 3, of tmp'] higher pp show ?thesis by simp
    qed
  qed
qed

lemma compress_rtn: "set rtn \<subseteq> set (compress s j rtn)"
proof (induction s arbitrary: j rtn)
  case Nil
  show ?case by auto
next
  case (Cons c s)
  show ?case
  proof (cases "c = quote")
    case True
    with Cons.IH [of rtn "j + 1"] show ?thesis by simp
  next
    case False
    with Cons.IH [of "(if j AND 1 \<noteq> 0 then rtn @ [quote] else rtn) @ [c]" 0] show ?thesis
      by (auto split: if_splits)
  qed
qed

lemma compress_keeps: "c \<in> set s \<Longrightarrow> c \<noteq> quote \<Longrightarrow> c \<in> set (compress s j rtn)"
proof (induction s arbitrary: j rtn)
  case Nil
  then show ?case by simp
next
  case (Cons a s)
  show ?case
  proof (cases "a = quote")
    case True
    with Cons.prems have "c \<in> set s" by auto
    from Cons.IH [OF this Cons.prems(2), of "j + 1" rtn] True show ?thesis by simp
  next
    case False
    show ?thesis
    proof (cases "c = a")
      case True
      have "a \<in> set ((if j AND 1 \<noteq> 0 then rtn @ [quote] else rtn) @ [a])" by simp
      with compress_rtn [of "(if j AND 1 \<noteq> 0 then rtn @ [quote] else rtn) @ [a]" s 0]
      have "a \<in> set (compress s 0 ((if j AND 1 \<noteq> 0 then rtn @ [quote] else rtn) @ [a]))"
        by blast
      with True False show ?thesis by simp
    next
      case ne: False
      with Cons.prems have "c \<in> set s" by auto
      from Cons.IH [OF this Cons.prems(2), of 0 "(if j AND 1 \<noteq> 0 then rtn @ [quote] else rtn) @ [a]"]
        False show ?thesis by simp
    qed
  qed
qed

lemma build_paren: "\<exists>c \<in> set rpn. paren c \<Longrightarrow> \<exists>e. build rpn stk = Inl e"
proof (induction rpn arbitrary: stk)
  case Nil
  then show ?case by simp
next
  case (Cons i rpn)
  show ?case
  proof (cases "paren i")
    case True
    then have "build (i # rpn) stk = Inl InvalidLogic"
      by (auto simp: paren_def isupper_def isdigit_def quote_def)
    then show ?thesis by blast
  next
    case False
    with Cons.prems have "\<exists>c \<in> set rpn. paren c" by auto
    from Cons.IH [OF this] have ih: "\<And>stk. \<exists>e. build rpn stk = Inl e" .
    show ?thesis
      using ih [of "VarNode i # stk"]
        ih [of "VarNode (char_of ((of_char i :: nat) - 48)) # stk"]
        ih [of "NotNode (hd stk) # tl stk"]
        ih [of "AndNode (hd stk) (hd (tl stk)) # tl (tl stk)"]
        ih [of "XorNode (hd stk) (hd (tl stk)) # tl (tl stk)"]
        ih [of "OrNode (hd stk) (hd (tl stk)) # tl (tl stk)"]
      by (auto split: list.splits)
  qed
qed

lemma unbalanced_fails:
  assumes "balance 0 input \<noteq> Some 0"
  shows "\<exists>e. main input = Error e"
proof (cases "validate input []")
  case (Inl e)
  then show ?thesis by (simp add: main_def)
next
  case (Inr var)
  from assms have ne: "input \<noteq> []" by auto
  with assms have b: "balance 0 (cvtAL input) \<noteq> Some 0" by (simp add: balance_cvtAL)
  have "\<exists>e. parse input = Failed e"
  proof (cases "cvtRPN_scan (cvtAL input) [] []")
    case None
    then show ?thesis by (simp add: parse_def cvtRPN_def)
  next
    case (Some r)
    obtain tmp stk where r: "r = (tmp, stk)" by (cases r)
    from unbalanced_scan [of "[]" 0 "cvtAL input" "[]"] b Some r
    obtain c where c: "c \<in> set (tmp @ stk)" "paren c" by auto
    then have "c \<noteq> quote" by (auto simp: paren_def quote_def)
    from compress_keeps [OF c(1) this, of 0 "[]"] Some r
    have "c \<in> set (cvtRPN (cvtAL input))" by (simp add: cvtRPN_def flush_append)
    with c(2) have "\<exists>c \<in> set (cvtRPN (cvtAL input)). paren c" by blast
    from build_paren [OF this, of "[]"] show ?thesis
      by (auto simp: parse_def Let_def)
  qed
  with Inr show ?thesis by (auto simp: main_def analyze_def)
qed

lemma scan_None_fails:
  "validate input [] = Inr var \<Longrightarrow> cvtRPN_scan (cvtAL input) [] [] = None \<Longrightarrow>
   main input = Error InvalidExpression"
  by (simp add: main_def analyze_def parse_def cvtRPN_def)

lemma close_without_open:
  assumes "stk \<noteq> []" and "CHR ''('' \<notin> set stk"
  shows "cvtRPN_scan (CHR '')'' # expr) tmp stk = None"
proof -
  have "CHR ''('' \<notin> set stk \<Longrightarrow> pop_to_paren tmp stk = (tmp @ stk, [])" for tmp
    by (induction stk arbitrary: tmp) auto
  with assms show ?thesis by (simp add: isupper_def isdigit_def)
qed

text \<open>
  C5, as the code has it. An input whose parentheses are unbalanced (a \<open>)\<close> with no \<open>(\<close>
  open, or a \<open>(\<close> that is never closed) ends in an error message, so no tree, table or
  simplified expression is produced. The message is \<open>[ERROR] Invalid expression\<close> when
  the scan of \<open>cvtRPN\<close> returns early, which it does at a \<open>)\<close> met with a non-empty operator
  stack that holds no \<open>(\<close>; otherwise it is the message of the first check that fails,
  and for the input \<open>(AB\<close> it is \<open>[ERROR] Invalid logic\<close>.
\<close>

theorem unbalanced_parentheses_fail:
  "(balance 0 input \<noteq> Some 0 \<longrightarrow> (\<exists>e. main input = Error e))
   \<and> (validate input [] = Inr var \<and> cvtRPN_scan (cvtAL input) [] [] = None
        \<longrightarrow> main input = Error InvalidExpression)
   \<and> (stk \<noteq> [] \<and> CHR ''('' \<notin> set stk \<longrightarrow> cvtRPN_scan (CHR '')'' # expr) tmp stk = None)
   \<and> main ''(AB'' = Error InvalidLogic"
proof -
  have "main ''(AB'' = Error InvalidLogic" by code_simp
  then show ?thesis
    using unbalanced_fails [of input] scan_None_fails [of input var]
      close_without_open [of stk expr tmp]
    by blast
qed

theorem unbalanced_parentheses_fail_witness:
  "balance 0 ''A+)'' = None \<and> validate ''A+)'' [] = Inr ''A''
   \<and> cvtRPN_scan (cvtAL ''A+)'') [] [] = None \<and> main ''A+)'' = Error InvalidExpression
   \<and> cvtRPN_scan (CHR '')'' # []) ''A'' ''+'' = None
   \<and> main ''(AB'' = Error InvalidLogic"
proof -
  have 1: "balance 0 ''A+)'' = None" by simp
  have 2: "validate ''A+)'' [] = Inr ''A''" by code_simp
  have 3: "cvtRPN_scan (cvtAL ''A+)'') [] [] = None" by code_simp
  have 4: "''+'' \<noteq> [] \<and> CHR ''('' \<notin> set ''+''" by simp
  from unbalanced_parentheses_fail [of "''A+)''" "''A''" "''+''" "[]" "''A''"] 1 2 3 4
  show ?thesis by simp
qed

text \<open>
  The claim as stated fails: the input \<open>(+\<close> has a \<open>(\<close> that is never closed and ends in
  \<open>[ERROR] Invalid OR logic\<close>; the input \<open>('))\<close> has a \<open>)\<close> with no \<open>(\<close> open and ends in
  \<open>[ERROR] Invalid NOT logic\<close>.
\<close>

theorem unbalanced_parentheses_counterexample:
  "balance 0 ''(+'' = Some 1 \<and> main ''(+'' = Error InvalidOrLogic
   \<and> balance 0 (''('' @ [quote] @ ''))'') = None
   \<and> main (''('' @ [quote] @ ''))'') = Error InvalidNotLogic
   \<and> main ''(+'' \<noteq> Error InvalidExpression
   \<and> main (''('' @ [quote] @ ''))'') \<noteq> Error InvalidExpression"
  by code_simp

section \<open>The table\<close>

lemma assign_outside:
  "assign var i cnt mvar x = (if x \<in> set var then assign var i cnt (\<lambda>_. 0) x else mvar x)"
proof (induction var arbitrary: cnt mvar)
  case Nil
  show ?case by simp
next
  case (Cons j var)
  define b where "b = int ((i div 2 ^ nat cnt) mod 2)"
  have 1: "assign var i (cnt - 1) (mvar(j := b)) x
      = (if x \<in> set var then assign var i (cnt - 1) (\<lambda>_. 0) x else (mvar(j := b)) x)"
    by (rule Cons.IH)
  have 2: "assign var i (cnt - 1) ((\<lambda>_. 0)(j := b)) x
      = (if x \<in> set var then assign var i (cnt - 1) (\<lambda>_. 0) x else ((\<lambda>_. 0)(j := b)) x)"
    by (rule Cons.IH)
  have "assign (j # var) i cnt mvar x = assign var i (cnt - 1) (mvar(j := b)) x"
    and "assign (j # var) i cnt (\<lambda>_. 0) x = assign var i (cnt - 1) ((\<lambda>_. 0)(j := b)) x"
    by (simp_all add: b_def)
  then show ?case
    by (simp only: 1 2) simp
qed

lemma assign_reset:
  "\<forall>c. c \<notin> set var \<longrightarrow> mvar c = 0 \<Longrightarrow> assign var i (int (length var) - 1) mvar = assignment var i"
  unfolding assignment_def
  by (rule ext) (metis assign_outside)

lemma assignment_outside: "c \<notin> set var \<Longrightarrow> assignment var i c = 0"
  unfolding assignment_def by (subst assign_outside) simp

lemma assign_nth:
  "distinct var \<Longrightarrow> k < length var \<Longrightarrow>
   assign var i cnt mvar (var ! k) = int ((i div 2 ^ nat (cnt - int k)) mod 2)"
proof (induction var arbitrary: k cnt mvar)
  case Nil
  then show ?case by simp
next
  case (Cons j var)
  show ?case
  proof (cases k)
    case 0
    with Cons.prems show ?thesis
      by (simp add: assign_outside [of var i "cnt - 1" "mvar(j := int ((i div 2 ^ nat cnt) mod 2))"])
  next
    case (Suc k')
    with Cons.prems have "k' < length var" "distinct var" by simp_all
    from Cons.IH [OF this(2,1), of "cnt - 1"] Suc show ?thesis
      by (simp add: algebra_simps)
  qed
qed

lemma assignment_nth:
  "distinct var \<Longrightarrow> k < length var \<Longrightarrow>
   assignment var i (var ! k) = int ((i div 2 ^ (length var - 1 - k)) mod 2)"
proof -
  assume d: "distinct var" and k: "k < length var"
  from k have "nat (int (length var) - 1 - int k) = length var - 1 - k" by linarith
  with assign_nth [OF d k, of i "int (length var) - 1" "\<lambda>_. 0"] show ?thesis
    by (simp add: assignment_def)
qed

lemma fold_tvt_row:
  "\<forall>c. c \<notin> set var \<longrightarrow> mvar c = 0 \<Longrightarrow>
   snd (fold (tvt_row var root) xs (mvar, m))
     = m @ filter (\<lambda>i. get root (assignment var i) \<noteq> 0) xs"
proof (induction xs arbitrary: mvar m)
  case Nil
  show ?case by simp
next
  case (Cons x xs)
  have row: "tvt_row var root x (mvar, m)
      = (assignment var x, if get root (assignment var x) \<noteq> 0 then m @ [x] else m)"
    by (simp add: tvt_row_def Let_def assign_reset [OF Cons.prems])
  have "\<forall>c. c \<notin> set var \<longrightarrow> assignment var x c = 0"
    by (simp add: assignment_outside)
  from Cons.IH [OF this] show ?case
    by (simp add: row)
qed

lemma tvt_filter: "tvt var root = filter (\<lambda>i. get root (assignment var i) \<noteq> 0) [0..<2 ^ length var]"
  unfolding tvt_def by (subst fold_tvt_row) simp_all

lemma main_Table:
  "main input = Table var root m s \<Longrightarrow>
   validate input [] = Inr var \<and> parse input = Root root \<and> var \<noteq> [] \<and> m = tvt var root"
  by (auto simp: main_def analyze_def Let_def split: sum.splits parsed.splits if_splits)

text \<open>
  C4. When a run prints a table, \<open>var\<close> has at least one variable and is in ascending
  order without duplicates; the rows are \<open>i = 0 .. 2^N - 1\<close> in this order; in row \<open>i\<close>
  the \<open>k\<close>-th variable has the value of bit \<open>N - 1 - k\<close> of \<open>i\<close>; \<open>m\<close> holds the rows on
  which the root is not 0, so it is strictly increasing and no longer than \<open>2^N\<close>.
\<close>

theorem table_enumeration_order:
  assumes "main input = Table var root m s"
  shows "length var \<ge> 1 \<and> sorted var \<and> distinct var
       \<and> m = filter (\<lambda>i. get root (assignment var i) \<noteq> 0) [0..<2 ^ length var]
       \<and> (\<forall>i k. k < length var \<longrightarrow>
              assignment var i (var ! k) = int ((i div 2 ^ (length var - 1 - k)) mod 2))
       \<and> sorted_wrt (<) m \<and> length m \<le> 2 ^ length var"
proof -
  from main_Table [OF assms] have v: "validate input [] = Inr var" and ne: "var \<noteq> []"
    and m: "m = tvt var root" by simp_all
  from validate_var [OF v] have sd: "sorted var" "distinct var" by simp_all
  have len: "length m \<le> 2 ^ length var"
    unfolding m tvt_filter using length_filter_le [of _ "[0..<2 ^ length var]"] by simp
  have srt: "sorted_wrt (<) m"
    unfolding m tvt_filter by (rule sorted_wrt_filter) simp
  from ne have "length var \<ge> 1" by (cases var) simp_all
  with sd m len srt show ?thesis
    by (simp add: tvt_filter assignment_nth)
qed

theorem table_enumeration_order_witness:
  "main ''AB'' = Table ''AB'' (AndNode (VarNode (CHR ''B'')) (VarNode (CHR ''A''))) [3] CallQMA
   \<and> [3] = filter (\<lambda>i. get (AndNode (VarNode (CHR ''B'')) (VarNode (CHR ''A''))) (assignment ''AB'' i) \<noteq> 0) [0..<2 ^ length ''AB'']
   \<and> assignment ''AB'' 2 (''AB'' ! 0) = int ((2 div 2 ^ (length ''AB'' - 1 - 0)) mod 2)
   \<and> sorted_wrt (<) [3::nat] \<and> length [3::nat] \<le> 2 ^ length ''AB''"
proof -
  have h: "main ''AB'' = Table ''AB'' (AndNode (VarNode (CHR ''B'')) (VarNode (CHR ''A''))) [3] CallQMA"
    by code_simp
  note t = table_enumeration_order [OF h]
  from t have q: "\<forall>i k. k < length ''AB'' \<longrightarrow>
      assignment ''AB'' i (''AB'' ! k) = int ((i div 2 ^ (length ''AB'' - 1 - k)) mod 2)"
    by blast
  have "0 < length ''AB''" by simp
  with q have "assignment ''AB'' 2 (''AB'' ! 0) = int ((2 div 2 ^ (length ''AB'' - 1 - 0)) mod 2)"
    by blast
  with t h show ?thesis by blast
qed
lemma tvt_subset: "set (tvt var l) \<subseteq> {0..<2 ^ length var}"
  by (auto simp: tvt_filter)

lemma tvt_full: "set (tvt var l) = {0..<2 ^ length var} \<Longrightarrow> tvt var l = [0..<2 ^ length var]"
  unfolding tvt_filter by (subst filter_id_conv) auto

lemma tvt_length_full:
  "(length (tvt var l) = 2 ^ length var) = (set (tvt var l) = {0..<2 ^ length var})"
proof
  assume len: "length (tvt var l) = 2 ^ length var"
  show "set (tvt var l) = {0..<2 ^ length var}"
  proof (rule ccontr)
    assume "set (tvt var l) \<noteq> {0..<2 ^ length var}"
    with tvt_subset [of var l] have "\<exists>x. x \<in> {0..<2 ^ length var} \<and> x \<notin> set (tvt var l)"
      by blast
    then obtain x where x: "x \<in> set [0..<2 ^ length var]"
      and nx: "x \<notin> set (tvt var l)" by auto
    from nx x have "\<not> get l (assignment var x) \<noteq> 0" by (simp add: tvt_filter)
    from length_filter_less [of x "[0..<2 ^ length var]" "\<lambda>i. get l (assignment var i) \<noteq> 0", OF x this]
      len show False by (simp add: tvt_filter)
  qed
next
  assume "set (tvt var l) = {0..<2 ^ length var}"
  from tvt_full [OF this] show "length (tvt var l) = 2 ^ length var" by simp
qed

text \<open>
  C8. On an input that passes \<open>validate\<close> and builds a root: with no variable the run
  prints the constant line, the value of one evaluation of the root, and no table;
  otherwise it prints the table and then \<open>Y = 0\<close> when the minterm set is empty,
  \<open>Y = 1\<close> when it is the whole range \<open>[0, 2^N)\<close>, and only in the remaining case does it
  go on to call \<open>QMA\<close>.
\<close>

theorem constant_case_handling:
  assumes "validate input [] = Inr var" and "parse input = Root l"
  shows "(var = [] \<longrightarrow> main input = ConstantExpression (get l (\<lambda>_. 0)))
       \<and> (var \<noteq> [] \<and> set (tvt var l) = {} \<longrightarrow> main input = Table var l [] Y0)
       \<and> (var \<noteq> [] \<and> set (tvt var l) = {0..<2 ^ length var}
            \<longrightarrow> main input = Table var l (tvt var l) Y1)
       \<and> (var \<noteq> [] \<and> set (tvt var l) \<noteq> {} \<and> set (tvt var l) \<noteq> {0..<2 ^ length var}
            \<longrightarrow> main input = Table var l (tvt var l) CallQMA)"
proof -
  have "set (tvt var l) = {0..<2 ^ length var} \<Longrightarrow> tvt var l \<noteq> []"
    using tvt_full [of var l] by auto
  then show ?thesis
    using assms tvt_length_full [of var l]
    by (auto simp: main_def analyze_def Let_def)
qed

theorem constant_case_handling_witness:
  "main ''0'' = ConstantExpression 0
   \<and> main (''AA'' @ [quote]) = Table ''A'' (AndNode (NotNode (VarNode (CHR ''A''))) (VarNode (CHR ''A''))) [] Y0
   \<and> main (''A+A'' @ [quote]) = Table ''A'' (OrNode (NotNode (VarNode (CHR ''A''))) (VarNode (CHR ''A''))) [0, 1] Y1"
proof -
  have 1: "validate ''0'' [] = Inr []" "parse ''0'' = Root (VarNode (CHR 0x00))"
    by code_simp+
  have 2: "validate (''AA'' @ [quote]) [] = Inr ''A''"
    "parse (''AA'' @ [quote]) = Root (AndNode (NotNode (VarNode (CHR ''A''))) (VarNode (CHR ''A'')))"
    "set (tvt ''A'' (AndNode (NotNode (VarNode (CHR ''A''))) (VarNode (CHR ''A'')))) = {}"
    by code_simp+
  have 3: "validate (''A+A'' @ [quote]) [] = Inr ''A''"
    "parse (''A+A'' @ [quote]) = Root (OrNode (NotNode (VarNode (CHR ''A''))) (VarNode (CHR ''A'')))"
    "tvt ''A'' (OrNode (NotNode (VarNode (CHR ''A''))) (VarNode (CHR ''A''))) = [0, 1]"
    by code_simp+
  have 4: "set [0, 1::nat] = {0..<2 ^ length ''A''}" by auto
  from constant_case_handling [OF 1] constant_case_handling [OF 2(1,2)] 2(3)
    constant_case_handling [OF 3(1,2)] 3(3) 4
  show ?thesis by simp
qed
section \<open>Patterns, bit strings and cubes\<close>

subsection \<open>Bit strings\<close>

lemma length_to_string: "length (to_string n i) = n"
  by (induction n) simp_all

lemma set_to_string: "set (to_string n i) \<subseteq> {CHR ''0'', CHR ''1''}"
  by (induction n) auto

lemma to_string_mod: "j \<le> n \<Longrightarrow> to_string j (i mod 2 ^ n) = to_string j i"
proof (induction j)
  case 0
  show ?case by simp
next
  case (Suc j)
  then have "j < n" by simp
  with bit_take_bit_iff [of n i j] have "odd ((i mod 2 ^ n) div 2 ^ j) = odd (i div 2 ^ j)"
    by (simp add: bit_iff_odd take_bit_eq_mod)
  then have "(((i mod 2 ^ n) div 2 ^ j) mod 2 = 1) = ((i div 2 ^ j) mod 2 = 1)"
    by (simp add: odd_iff_mod_2_eq_one)
  with Suc show ?case by simp
qed

lemma to_string_add: "j \<le> n \<Longrightarrow> to_string j (i + 2 ^ n) = to_string j i"
  using to_string_mod [of j n "i + 2 ^ n"] to_string_mod [of j n i] by simp

lemma to_string_inj:
  "to_string n i = to_string n i' \<Longrightarrow> i < 2 ^ n \<Longrightarrow> i' < 2 ^ n \<Longrightarrow> i = i'"
proof (induction n arbitrary: i i')
  case 0
  then show ?case by simp
next
  case (Suc n)
  have split: "\<And>x::nat. x < 2 ^ Suc n \<Longrightarrow> x div 2 ^ n < 2"
    by (simp add: less_mult_imp_div_less)
  from Suc.prems(1) have hd: "((i div 2 ^ n) mod 2 = 1) = ((i' div 2 ^ n) mod 2 = 1)"
    and tl: "to_string n i = to_string n i'"
    by (simp_all split: if_splits)
  from split [OF Suc.prems(2)] split [OF Suc.prems(3)] hd
  have q: "i div 2 ^ n = i' div 2 ^ n" by (auto simp: less_2_cases_iff)
  from tl to_string_mod [of n n i] to_string_mod [of n n i']
  have "to_string n (i mod 2 ^ n) = to_string n (i' mod 2 ^ n)"
    by simp
  from Suc.IH [OF this] have r: "i mod 2 ^ n = i' mod 2 ^ n" by simp
  have "i = (i div 2 ^ n) * 2 ^ n + i mod 2 ^ n" by (rule div_mult_mod_eq [symmetric])
  also have "\<dots> = (i' div 2 ^ n) * 2 ^ n + i' mod 2 ^ n" by (simp only: q r)
  also have "\<dots> = i'" by (rule div_mult_mod_eq)
  finally show ?case .
qed

lemma to_string_surj:
  "length q = n \<Longrightarrow> set q \<subseteq> {CHR ''0'', CHR ''1''} \<Longrightarrow> \<exists>i < 2 ^ n. to_string n i = q"
proof (induction n arbitrary: q)
  case 0
  then show ?case by simp
next
  case (Suc n)
  then obtain c q' where q: "q = c # q'" by (cases q) simp_all
  with Suc.prems have "length q' = n" "set q' \<subseteq> {CHR ''0'', CHR ''1''}" and c: "c = CHR ''0'' \<or> c = CHR ''1''"
    by auto
  from Suc.IH [OF this(1,2)] obtain i where i: "i < 2 ^ n" "to_string n i = q'" by blast
  show ?case
  proof (cases "c = CHR ''1''")
    case True
    have "(i + 2 ^ n) div 2 ^ n = 1" using i by (simp add: div_add_self2)
    then have "to_string (Suc n) (i + 2 ^ n) = q"
      using i True by (simp add: q to_string_add)
    moreover have "i + 2 ^ n < 2 ^ Suc n" using i by simp
    ultimately show ?thesis by blast
  next
    case False
    with c have "to_string (Suc n) i = q"
      using i by (simp add: q)
    moreover have "i < 2 ^ Suc n" using i by simp
    ultimately show ?thesis by blast
  qed
qed

subsection \<open>Matching and cubes\<close>

lemma matches_Nil [simp]: "matches [] q = (q = [])"
  by (simp add: matches_def)

lemma matches_Cons:
  "matches (a # p) q = (\<exists>d q'. q = d # q' \<and> (a = CHR ''-'' \<or> a = d) \<and> matches p q')"
  unfolding matches_def list_all2_Cons1 by blast

lemma matches_length: "matches p q \<Longrightarrow> length p = length q"
  by (simp add: matches_def list_all2_lengthD)

lemma matches_append:
  "matches (xs @ p) q = (\<exists>qx q'. q = qx @ q' \<and> length qx = length xs \<and> matches xs qx \<and> matches p q')"
proof
  assume "matches (xs @ p) q"
  then obtain us vs where "q = us @ vs" "length us = length xs"
    "list_all2 (\<lambda>a b. a = CHR ''-'' \<or> a = b) xs us" "list_all2 (\<lambda>a b. a = CHR ''-'' \<or> a = b) p vs"
    unfolding matches_def list_all2_append1 by blast
  then show "\<exists>qx q'. q = qx @ q' \<and> length qx = length xs \<and> matches xs qx \<and> matches p q'"
    unfolding matches_def by blast
next
  assume "\<exists>qx q'. q = qx @ q' \<and> length qx = length xs \<and> matches xs qx \<and> matches p q'"
  then obtain qx q' where q: "q = qx @ q'" "length qx = length xs" "matches xs qx" "matches p q'"
    by blast
  from q(4) have "length q' = length p" by (simp add: matches_def list_all2_lengthD)
  with q show "matches (xs @ p) q"
    unfolding matches_def list_all2_append1 by blast
qed

lemma matches_split:
  "matches (xs @ a # ys) q =
     (\<exists>qx d qy. q = qx @ d # qy \<and> length qx = length xs \<and> matches xs qx
                \<and> (a = CHR ''-'' \<or> a = d) \<and> matches ys qy)"
  by (simp add: matches_append matches_Cons) blast

lemma matches_dash:
  assumes "set q \<subseteq> {CHR ''0'', CHR ''1''}"
  shows "matches (xs @ CHR ''-'' # ys) q
       = (matches (xs @ CHR ''0'' # ys) q \<or> matches (xs @ CHR ''1'' # ys) q)"
proof -
  have "\<And>qx d qy. q = qx @ d # qy \<Longrightarrow> d = CHR ''0'' \<or> d = CHR ''1''"
    using assms by auto
  then show ?thesis
    unfolding matches_split by blast
qed

lemma matches_dash_weaker: "matches (xs @ a # ys) q \<Longrightarrow> matches (xs @ CHR ''-'' # ys) q"
  unfolding matches_split by blast

lemma cube_dash:
  "cube n (xs @ CHR ''-'' # ys) = cube n (xs @ CHR ''0'' # ys) \<union> cube n (xs @ CHR ''1'' # ys)"
  using matches_dash [OF set_to_string] by (auto simp: cube_def)

lemma cube_dash_weaker: "cube n (xs @ a # ys) \<subseteq> cube n (xs @ CHR ''-'' # ys)"
  using matches_dash_weaker by (auto simp: cube_def)

lemma matches_bits: "CHR ''-'' \<notin> set p \<Longrightarrow> matches p q = (p = q)"
  by (induction p arbitrary: q) (auto simp: matches_Cons)

lemma cube_to_string: "i < 2 ^ n \<Longrightarrow> cube n (to_string n i) = {i}"
proof -
  assume i: "i < 2 ^ n"
  have "CHR ''-'' \<notin> set (to_string n i)" using set_to_string [of n i] by auto
  then show ?thesis
    using i by (auto simp: cube_def matches_bits dest: to_string_inj)
qed

section \<open>One pass of the merge loop\<close>

subsection \<open>The comparison of two patterns\<close>

lemma compare_2 [simp]: "compare j k tmp (Suc (Suc 0)) = (tmp, Suc (Suc 0))"
  by (cases j) simp_all

lemma compare_same: "cnt < 2 \<Longrightarrow> compare j j tmp cnt = (tmp @ j, cnt)"
  by (induction j arbitrary: tmp) simp_all

lemma compare_cnt1: "length j = length k \<Longrightarrow> snd (compare j k tmp 1) = 1 \<Longrightarrow> j = k"
proof (induction j arbitrary: k tmp)
  case Nil
  then show ?case by simp
next
  case (Cons a j)
  then obtain b k' where k: "k = b # k'" by (cases k) simp_all
  show ?case
  proof (cases "a = b")
    case True
    with Cons.prems k have "snd (compare j k' (tmp @ [a]) 1) = 1" "length j = length k'"
      by simp_all
    from Cons.IH [OF this(2,1)] True k show ?thesis by simp
  next
    case False
    with Cons.prems k show ?thesis by simp
  qed
qed

lemma compare_one:
  "length j = length k \<Longrightarrow> compare j k tmp 0 = (t, 1) \<Longrightarrow>
   \<exists>xs a b ys. j = xs @ a # ys \<and> k = xs @ b # ys \<and> a \<noteq> b \<and> t = tmp @ xs @ CHR ''-'' # ys"
proof (induction j arbitrary: k tmp)
  case Nil
  then show ?case by simp
next
  case (Cons a j)
  then obtain b k' where k: "k = b # k'" by (cases k) simp_all
  show ?case
  proof (cases "a = b")
    case True
    with Cons.prems k have "compare j k' (tmp @ [a]) 0 = (t, 1)" "length j = length k'"
      by simp_all
    from Cons.IH [OF this(2,1)] obtain xs a' b' ys where
      "j = xs @ a' # ys" "k' = xs @ b' # ys" "a' \<noteq> b'" "t = (tmp @ [a]) @ xs @ CHR ''-'' # ys"
      by blast
    with True k have "a # j = (a # xs) @ a' # ys \<and> k = (a # xs) @ b' # ys \<and> a' \<noteq> b'
        \<and> t = tmp @ (a # xs) @ CHR ''-'' # ys"
      by simp
    then show ?thesis by blast
  next
    case False
    with Cons.prems k have c: "compare j k' (tmp @ [CHR ''-'']) 1 = (t, 1)" and l: "length j = length k'"
      by simp_all
    from c have "snd (compare j k' (tmp @ [CHR ''-'']) 1) = 1" by simp
    from compare_cnt1 [OF l this] have jk: "j = k'" .
    with c have "t = tmp @ [CHR ''-''] @ j" by (simp add: compare_same)
    with jk k False have "a # j = [] @ a # j \<and> k = [] @ b # j \<and> a \<noteq> b \<and> t = tmp @ [] @ CHR ''-'' # j"
      by simp
    then show ?thesis by blast
  qed
qed

lemma compare_split:
  "a \<noteq> b \<Longrightarrow> compare (xs @ a # ys) (xs @ b # ys) tmp 0 = (tmp @ xs @ CHR ''-'' # ys, 1)"
  by (induction xs arbitrary: tmp) (simp_all add: compare_same)

lemma mergeable_split:
  "a \<noteq> b \<Longrightarrow> mergeable (xs @ a # ys) (xs @ b # ys) \<and> merged (xs @ a # ys) (xs @ b # ys) = xs @ CHR ''-'' # ys"
  by (simp add: mergeable_def merged_def compare_split)

lemma count1_append [simp]: "count1 (xs @ ys) = count1 xs + count1 ys"
  by (induction xs) simp_all

lemma dashes_append [simp]: "dashes (xs @ ys) = dashes xs + dashes ys"
  by (simp add: dashes_def)

lemma dashes_Cons [simp]: "dashes (a # p) = (if a = CHR ''-'' then 1 else 0) + dashes p"
  by (simp add: dashes_def)

lemma dashes_le_length: "dashes p \<le> length p"
  by (simp add: dashes_def)

lemma adjacent_split:
  "a \<noteq> b \<Longrightarrow> a \<noteq> CHR ''-'' \<Longrightarrow> b \<noteq> CHR ''-'' \<Longrightarrow>
   adjacent (xs @ a # ys) (xs @ b # ys) (length xs) \<and> dashed (xs @ a # ys) (length xs) = xs @ CHR ''-'' # ys"
  by (auto simp: adjacent_def dashed_def nth_append nth_Cons split: nat.splits)

subsection \<open>The groups and the pairs a pass visits\<close>

lemma grouping_fst:
  "fst (grouping ls (grp, mx)) c = grp c @ filter (\<lambda>p. count1 p = c) ls"
  by (induction ls arbitrary: grp mx) (simp_all add: Let_def)

lemma grouping_snd_mono: "mx \<le> snd (grouping ls (grp, mx))"
proof (induction ls arbitrary: grp mx)
  case Nil
  show ?case by simp
next
  case (Cons i ls)
  have "(if int (count1 i) > mx then int (count1 i) else mx)
      \<le> snd (grouping ls (grp(count1 i := grp (count1 i) @ [i]), if int (count1 i) > mx then int (count1 i) else mx))"
    by (rule Cons.IH)
  then show ?case by (simp add: Let_def split: if_splits)
qed

lemma grouping_snd_ge: "p \<in> set ls \<Longrightarrow> int (count1 p) \<le> snd (grouping ls (grp, mx))"
proof (induction ls arbitrary: grp mx)
  case Nil
  then show ?case by simp
next
  case (Cons i ls)
  show ?case
  proof (cases "p = i")
    case True
    have "(if int (count1 i) > mx then int (count1 i) else mx)
      \<le> snd (grouping ls (grp(count1 i := grp (count1 i) @ [i]), if int (count1 i) > mx then int (count1 i) else mx))"
      by (rule grouping_snd_mono)
    with True show ?thesis by (simp add: Let_def split: if_splits)
  next
    case False
    with Cons.prems have "p \<in> set ls" by simp
    from Cons.IH [OF this] show ?thesis by (simp add: Let_def)
  qed
qed

lemma grouping_snd_Nil: "snd (grouping [] (grp, mx)) = mx"
  by simp

lemma fold_product:
  "fold (\<lambda>j s. fold (\<lambda>k s. f j k s) ys s) xs s = fold (\<lambda>(j, k). f j k) (List.product xs ys) s"
  by (induction xs arbitrary: s) (simp_all add: fold_map comp_def)

lemma product_Nil2: "List.product xs [] = []"
  by (induction xs) simp_all

lemma compare_groups_pairs:
  "compare_groups grp mx s = fold (\<lambda>(j, k). merge_pair j k) (pairs_of grp mx) s"
proof -
  define step where "step = (\<lambda>i s. if grp i \<noteq> [] \<and> grp (i - 1) \<noteq> []
                 then fold (\<lambda>j s. fold (\<lambda>k s. merge_pair j k s) (grp (i - 1)) s) (grp i) s
                 else s)"
  define pr where "pr = (\<lambda>i. List.product (grp i) (grp (i - 1)))"
  have one: "step i s = fold (\<lambda>(j, k). merge_pair j k) (pr i) s" for i s
  proof (cases "grp i \<noteq> [] \<and> grp (i - 1) \<noteq> []")
    case True
    then show ?thesis unfolding step_def pr_def by (simp only: fold_product) simp
  next
    case False
    then have "pr i = []" unfolding pr_def by (auto simp: product_Nil2)
    with False show ?thesis unfolding step_def by auto
  qed
  have "fold step is s = fold (\<lambda>(j, k). merge_pair j k) (concat (map pr is)) s" for "is" s
    by (induction "is" arbitrary: s) (simp_all add: one)
  then show ?thesis
    unfolding compare_groups_def pairs_of_def step_def pr_def .
qed

lemma set_pairs_of:
  assumes "\<forall>p \<in> set ls. count1 p \<le> mx"
  shows "set (pairs_of (\<lambda>c. filter (\<lambda>p. count1 p = c) ls) mx)
       = {(j, k). j \<in> set ls \<and> k \<in> set ls \<and> count1 j = Suc (count1 k)}"
proof (rule set_eqI)
  fix x :: "string \<times> string"
  obtain j k where x: "x = (j, k)" by (cases x)
  have "(j, k) \<in> set (pairs_of (\<lambda>c. filter (\<lambda>p. count1 p = c) ls) mx)
      = (\<exists>i. 1 \<le> i \<and> i \<le> mx \<and> j \<in> set ls \<and> count1 j = i \<and> k \<in> set ls \<and> count1 k = i - 1)"
    by (auto simp: pairs_of_def)
  also have "\<dots> = (j \<in> set ls \<and> k \<in> set ls \<and> count1 j = Suc (count1 k))"
    using assms by (cases "count1 j") auto
  finally show "x \<in> set (pairs_of (\<lambda>c. filter (\<lambda>p. count1 p = c) ls) mx)
      = (x \<in> {(j, k). j \<in> set ls \<and> k \<in> set ls \<and> count1 j = Suc (count1 k)})"
    by (simp add: x)
qed

lemma touch_dom: "p \<in> dom st \<Longrightarrow> touch st p = st"
  by (auto simp: touch_def)

lemma merge_pair_eq:
  assumes "j \<in> dom st" and "k \<in> dom st"
  shows "merge_pair j k (st, tls, chk, f) =
     (if \<not> mergeable j k then (st, tls, chk, f)
      else if st (merged j k) = None
        then (st(merged j k \<mapsto> at_st st j \<union> at_st st k), tls @ [merged j k],
              chk(j := True, k := True), True)
        else (st, tls, chk(j := True, k := True), True))"
proof -
  obtain tmp cnt where c: "compare j k [] 0 = (tmp, cnt)" by (cases "compare j k [] 0")
  show ?thesis
  proof (cases "cnt = 1 \<and> st tmp = None")
    case True
    with assms have ne: "j \<noteq> tmp" "k \<noteq> tmp" by auto
    have 1: "touch st j = st" by (rule touch_dom [OF assms(1)])
    have 2: "touch (st(tmp \<mapsto> at_st st j)) k = st(tmp \<mapsto> at_st st j)"
      using assms(2) by (intro touch_dom) simp
    have 3: "at_st (st(tmp \<mapsto> at_st st j)) tmp = at_st st j"
      "at_st (st(tmp \<mapsto> at_st st j)) k = at_st st k"
      using ne by (simp_all add: at_st_def)
    show ?thesis
      using True c by (simp add: merge_pair_def mergeable_def merged_def Let_def 1 2 3)
  next
    case False
    then show ?thesis
      using c by (auto simp: merge_pair_def mergeable_def merged_def)
  qed
qed

text \<open>The state of a pass after the pairs \<open>ps\<close>, from \<open>(st, tls, chk, f)\<close>.\<close>

lemma fold_merge_chk:
  "fold (\<lambda>(j, k). merge_pair j k) ps (st, tls, chk, f) = (st', tls', chk', f') \<Longrightarrow>
   \<forall>(j, k) \<in> set ps. j \<in> dom st \<and> k \<in> dom st \<Longrightarrow>
   (\<forall>p. chk' p = (chk p \<or> (\<exists>(j, k) \<in> set ps. mergeable j k \<and> (p = j \<or> p = k))))
   \<and> f' = (f \<or> (\<exists>(j, k) \<in> set ps. mergeable j k))
   \<and> dom st' = dom st \<union> {merged j k | j k. (j, k) \<in> set ps \<and> mergeable j k}
   \<and> (\<forall>p \<in> dom st. st' p = st p)
   \<and> set tls' = set tls \<union> ({merged j k | j k. (j, k) \<in> set ps \<and> mergeable j k} - dom st)"
proof (induction ps arbitrary: st tls chk f)
  case Nil
  then show ?case by simp
next
  case (Cons x ps)
  obtain j k where x: "x = (j, k)" by (cases x)
  from Cons.prems(2) x have jk: "j \<in> dom st" "k \<in> dom st"
    and rest: "\<forall>(j, k) \<in> set ps. j \<in> dom st \<and> k \<in> dom st" by auto
  obtain st1 tls1 chk1 f1 where s1: "merge_pair j k (st, tls, chk, f) = (st1, tls1, chk1, f1)"
    by (cases "merge_pair j k (st, tls, chk, f)")
  define N where "N = (if mergeable j k then {merged j k} else {})"
  define G where "G = {merged j k | j k. (j, k) \<in> set ps \<and> mergeable j k}"
  define G' where "G' = {merged j k | j k. (j, k) \<in> set (x # ps) \<and> mergeable j k}"
  have G': "G' = N \<union> G"
    unfolding G'_def N_def G_def by (auto simp: x)
  note mp = merge_pair_eq [OF jk, of tls chk f, unfolded s1]
  from mp have chk1: "\<forall>p. chk1 p = (chk p \<or> (mergeable j k \<and> (p = j \<or> p = k)))"
    by (auto split: if_splits)
  from mp have f1: "f1 = (f \<or> mergeable j k)"
    by (auto split: if_splits)
  from mp have dom1: "dom st1 = dom st \<union> N"
    unfolding N_def by (auto split: if_splits)
  from mp have old1: "\<forall>p \<in> dom st. st1 p = st p"
    by (auto split: if_splits)
  from mp have tls1: "set tls1 = set tls \<union> (N - dom st)"
    unfolding N_def by (auto split: if_splits)
  from rest dom1 have rest1: "\<forall>(j, k) \<in> set ps. j \<in> dom st1 \<and> k \<in> dom st1" by blast
  from Cons.prems(1) have "fold (\<lambda>(j, k). merge_pair j k) ps (st1, tls1, chk1, f1) = (st', tls', chk', f')"
    by (simp add: x s1)
  note IH = Cons.IH [OF this rest1, folded G_def]
  from IH have IH1: "\<forall>p. chk' p = (chk1 p \<or> (\<exists>(j, k) \<in> set ps. mergeable j k \<and> (p = j \<or> p = k)))"
    and IH2: "f' = (f1 \<or> (\<exists>(j, k) \<in> set ps. mergeable j k))"
    and IH3: "dom st' = dom st1 \<union> G"
    and IH4: "\<forall>p \<in> dom st1. st' p = st1 p"
    and IH5: "set tls' = set tls1 \<union> (G - dom st1)"
    by blast+
  have A: "\<forall>p. chk' p = (chk p \<or> (\<exists>(j, k) \<in> set (x # ps). mergeable j k \<and> (p = j \<or> p = k)))"
    unfolding IH1 [rule_format] chk1 [rule_format] by (simp add: x; blast)
  have B: "f' = (f \<or> (\<exists>(j, k) \<in> set (x # ps). mergeable j k))"
    unfolding IH2 f1 by (simp add: x; blast)
  from IH3 dom1 G' have C: "dom st' = dom st \<union> G'"
    by blast
  from IH4 old1 dom1 have D: "\<forall>p \<in> dom st. st' p = st p"
    by (metis UnI1)
  from IH5 tls1 dom1 G' have E: "set tls' = set tls \<union> (G' - dom st)"
    by blast
  show ?case by (intro conjI A B C [unfolded G'_def] D E [unfolded G'_def])
qed

lemma fold_merge_new:
  "fold (\<lambda>(j, k). merge_pair j k) ps (st, tls, chk, f) = (st', tls', chk', f') \<Longrightarrow>
   \<forall>(j, k) \<in> set ps. j \<in> dom st \<and> k \<in> dom st \<Longrightarrow>
   p \<in> dom st' \<Longrightarrow> p \<notin> dom st \<Longrightarrow>
   \<exists>(j, k) \<in> set ps. mergeable j k \<and> merged j k = p \<and> st' p = Some (at_st st j \<union> at_st st k)"
proof (induction ps arbitrary: st tls chk f)
  case Nil
  then show ?case by auto
next
  case (Cons x ps)
  obtain j k where x: "x = (j, k)" by (cases x)
  from Cons.prems(2) x have jk: "j \<in> dom st" "k \<in> dom st"
    and rest: "\<forall>(j, k) \<in> set ps. j \<in> dom st \<and> k \<in> dom st" by auto
  obtain st1 tls1 chk1 f1 where s1: "merge_pair j k (st, tls, chk, f) = (st1, tls1, chk1, f1)"
    by (cases "merge_pair j k (st, tls, chk, f)")
  from s1 merge_pair_eq [OF jk, of tls chk f]
  have dom1: "dom st \<subseteq> dom st1"
    and old1: "\<forall>p \<in> dom st. st1 p = st p"
    and new1: "\<forall>p \<in> dom st1 - dom st. mergeable j k \<and> merged j k = p \<and> st1 p = Some (at_st st j \<union> at_st st k)"
    by (auto split: if_splits)
  from rest dom1 have rest1: "\<forall>(j, k) \<in> set ps. j \<in> dom st1 \<and> k \<in> dom st1" by blast
  from Cons.prems(1) have run: "fold (\<lambda>(j, k). merge_pair j k) ps (st1, tls1, chk1, f1) = (st', tls', chk', f')"
    by (simp add: x s1)
  show ?case
  proof (cases "p \<in> dom st1")
    case True
    with new1 Cons.prems(4) have "mergeable j k \<and> merged j k = p \<and> st1 p = Some (at_st st j \<union> at_st st k)"
      by blast
    moreover from fold_merge_chk [OF run rest1] True have "st' p = st1 p" by blast
    ultimately have "mergeable j k \<and> merged j k = p \<and> st' p = Some (at_st st j \<union> at_st st k)"
      by simp
    then show ?thesis by (intro bexI [of _ "(j, k)"]) (simp_all add: x)
  next
    case False
    from Cons.IH [OF run rest1 Cons.prems(3) False]
    obtain j' k' where jk': "(j', k') \<in> set ps" "mergeable j' k'" "merged j' k' = p"
      "st' p = Some (at_st st1 j' \<union> at_st st1 k')" by blast
    from jk'(1) rest have "j' \<in> dom st" "k' \<in> dom st" by blast+
    with old1 have "st1 j' = st j'" "st1 k' = st k'" by blast+
    then have "at_st st1 j' = at_st st j'" "at_st st1 k' = at_st st k'"
      by (simp_all add: at_st_def)
    with jk' have "mergeable j' k' \<and> merged j' k' = p \<and> st' p = Some (at_st st j' \<union> at_st st k')"
      by simp
    with jk'(1) show ?thesis by (intro bexI [of _ "(j', k')"]) simp_all
  qed
qed

lemma grouping_groups:
  "grouping ls ((\<lambda>_. []), -1) = (grp, mx) \<Longrightarrow>
   grp = (\<lambda>c. filter (\<lambda>p. count1 p = c) ls) \<and> (\<forall>p \<in> set ls. int (count1 p) \<le> mx) \<and> (ls = [] \<longrightarrow> mx = -1)"
proof -
  assume g: "grouping ls ((\<lambda>_. []), -1) = (grp, mx)"
  have "grp c = filter (\<lambda>p. count1 p = c) ls" for c
    using grouping_fst [of ls "\<lambda>_. []" "-1" c] g by simp
  moreover have "int (count1 p) \<le> mx" if "p \<in> set ls" for p
    using grouping_snd_ge [OF that, of "\<lambda>_. []" "-1"] g by simp
  moreover have "ls = [] \<longrightarrow> mx = -1" using g by auto
  ultimately show ?thesis by auto
qed

lemma round_char:
  assumes sub: "set ls \<subseteq> dom st" and ne: "ls \<noteq> []"
  shows "\<exists>st' tls chk f. round ls st = Some (tls @ filter (\<lambda>i. \<not> chk i) ls, st', f)
     \<and> (\<forall>p. chk p = (\<exists>(j, k) \<in> visited ls. mergeable j k \<and> (p = j \<or> p = k)))
     \<and> f = (\<exists>(j, k) \<in> visited ls. mergeable j k)
     \<and> dom st' = dom st \<union> {merged j k | j k. (j, k) \<in> visited ls \<and> mergeable j k}
     \<and> (\<forall>p \<in> dom st. st' p = st p)
     \<and> set tls = {merged j k | j k. (j, k) \<in> visited ls \<and> mergeable j k} - dom st
     \<and> (\<forall>p \<in> dom st' - dom st. \<exists>(j, k) \<in> visited ls. mergeable j k \<and> merged j k = p
            \<and> st' p = Some (at_st st j \<union> at_st st k))"
proof -
  obtain grp mx where g: "grouping ls ((\<lambda>_. []), -1) = (grp, mx)"
    by (cases "grouping ls ((\<lambda>_. []), -1)")
  note gg = grouping_groups [OF g]
  from ne obtain p0 where "p0 \<in> set ls" by (cases ls) auto
  with gg have mx: "0 \<le> mx" by force
  have le: "\<forall>p \<in> set ls. count1 p \<le> nat mx"
    using gg by auto
  define ps where "ps = pairs_of grp (nat mx)"
  have ps: "set ps = visited ls"
    unfolding ps_def visited_def using set_pairs_of [OF le] gg by simp
  obtain st' tls chk f where run:
    "fold (\<lambda>(j, k). merge_pair j k) ps (st, [], (\<lambda>_. False), False) = (st', tls, chk, f)"
    by (cases "fold (\<lambda>(j, k). merge_pair j k) ps (st, [], (\<lambda>_. False), False)")
  have dom: "\<forall>(j, k) \<in> set ps. j \<in> dom st \<and> k \<in> dom st"
    unfolding ps visited_def using sub by blast
  have r: "round ls st = Some (tls @ filter (\<lambda>i. \<not> chk i) ls, st', f)"
    using mx run by (simp add: round_def g compare_groups_pairs ps_def [symmetric])
  note c = fold_merge_chk [OF run dom, unfolded ps]
  have new: "\<forall>p \<in> dom st' - dom st. \<exists>(j, k) \<in> visited ls. mergeable j k \<and> merged j k = p
            \<and> st' p = Some (at_st st j \<union> at_st st k)"
    using fold_merge_new [OF run dom, unfolded ps] by blast
  from c have c1: "\<forall>p. chk p = (\<exists>(j, k) \<in> visited ls. mergeable j k \<and> (p = j \<or> p = k))"
    and c2: "f = (\<exists>(j, k) \<in> visited ls. mergeable j k)"
    and c3: "dom st' = dom st \<union> {merged j k | j k. (j, k) \<in> visited ls \<and> mergeable j k}"
    and c4: "\<forall>p \<in> dom st. st' p = st p"
    and c5: "set tls = {merged j k | j k. (j, k) \<in> visited ls \<and> mergeable j k} - dom st"
    by simp_all
  show ?thesis
    apply (rule exI [of _ st'], rule exI [of _ tls], rule exI [of _ chk], rule exI [of _ f])
    apply (intro conjI)
          apply (rule r)
         apply (rule c1)
        apply (rule c2)
       apply (rule c3)
      apply (rule c4)
     apply (rule c5)
    apply (rule new)
    done
qed

subsection \<open>Implicants\<close>

lemma wf_pat_split:
  "wf_pat n (xs @ a # ys)
     = (length xs + Suc (length ys) = n \<and> set xs \<subseteq> {CHR ''0'', CHR ''1'', CHR ''-''}
        \<and> a \<in> {CHR ''0'', CHR ''1'', CHR ''-''} \<and> set ys \<subseteq> {CHR ''0'', CHR ''1'', CHR ''-''})"
  by (auto simp: wf_pat_def)

lemma implicant_below:
  "implicant n M (xs @ CHR ''-'' # ys) \<Longrightarrow> a = CHR ''0'' \<or> a = CHR ''1'' \<Longrightarrow>
   implicant n M (xs @ a # ys)"
  using cube_dash_weaker [of n xs a ys] by (auto simp: implicant_def wf_pat_split)

lemma implicant_join:
  "implicant n M (xs @ CHR ''0'' # ys) \<Longrightarrow> implicant n M (xs @ CHR ''1'' # ys) \<Longrightarrow>
   implicant n M (xs @ CHR ''-'' # ys)"
  by (auto simp: implicant_def wf_pat_split cube_dash)

lemma not_primeE:
  assumes "implicant n M p" and "\<not> prime n M p"
  obtains xs a ys where "p = xs @ a # ys" "a = CHR ''0'' \<or> a = CHR ''1''"
    "implicant n M (xs @ CHR ''-'' # ys)"
proof -
  from assms obtain xs a ys where p: "p = xs @ a # ys" "a \<noteq> CHR ''-''"
    "implicant n M (xs @ CHR ''-'' # ys)"
    unfolding prime_def by blast
  from assms(1) p(1) have "a \<in> {CHR ''0'', CHR ''1'', CHR ''-''}"
    by (simp add: implicant_def wf_pat_split)
  with p(2) have "a = CHR ''0'' \<or> a = CHR ''1''" by blast
  with p that show thesis by blast
qed

lemma primeD:
  "prime n M (xs @ a # ys) \<Longrightarrow> a \<noteq> CHR ''-'' \<Longrightarrow> \<not> implicant n M (xs @ CHR ''-'' # ys)"
  unfolding prime_def by blast

subsection \<open>A pass from a state of the invariant\<close>

lemma mergeable_ex:
  assumes "length j = length k" and "mergeable j k"
  shows "\<exists>xs a b ys. j = xs @ a # ys \<and> k = xs @ b # ys \<and> a \<noteq> b \<and> merged j k = xs @ CHR ''-'' # ys"
proof -
  from assms(2) have "compare j k [] 0 = (merged j k, 1)"
    by (simp add: mergeable_def merged_def prod_eq_iff)
  from compare_one [OF assms(1) this] show ?thesis by simp
qed

lemma inv_pair:
  assumes inv: "merge_inv n M r ls st" and v: "(j, k) \<in> visited ls" and m: "mergeable j k"
  shows "\<exists>xs ys. j = xs @ CHR ''1'' # ys \<and> k = xs @ CHR ''0'' # ys
    \<and> merged j k = xs @ CHR ''-'' # ys \<and> dashes j = r \<and> dashes k = r
    \<and> implicant n M (xs @ CHR ''-'' # ys)"
proof -
  from inv have ls: "set ls = {p. implicant n M p \<and> dashes p \<le> r \<and> (dashes p = r \<or> prime n M p)}"
    by (simp add: merge_inv_def)
  from v have jl: "j \<in> set ls" and kl: "k \<in> set ls" and c: "count1 j = Suc (count1 k)"
    by (simp_all add: visited_def)
  from jl kl ls have ij: "implicant n M j" and ik: "implicant n M k"
    and dj: "dashes j \<le> r" and dk: "dashes k \<le> r"
    and pj: "dashes j \<noteq> r \<Longrightarrow> prime n M j"
    by auto
  from ij ik have "length j = length k" by (simp add: implicant_def wf_pat_def)
  from mergeable_ex [OF this m] obtain xs a b ys where
    j: "j = xs @ a # ys" and k: "k = xs @ b # ys" and ab: "a \<noteq> b"
    and mg: "merged j k = xs @ CHR ''-'' # ys" by blast
  from c j k have a: "a = CHR ''1''" and b1: "b \<noteq> CHR ''1''"
    by (simp_all split: if_splits)
  from ik k have "b \<in> {CHR ''0'', CHR ''1'', CHR ''-''}"
    by (simp add: implicant_def wf_pat_split)
  with b1 have b: "b = CHR ''0'' \<or> b = CHR ''-''" by blast
  have b0: "b = CHR ''0''"
  proof (rule ccontr)
    assume "b \<noteq> CHR ''0''"
    with b have bd: "b = CHR ''-''" by blast
    with j k a have "dashes k = Suc (dashes j)" by simp
    with dk have "dashes j \<noteq> r" by simp
    from pj [OF this] j a have "\<not> implicant n M (xs @ CHR ''-'' # ys)"
      by (intro primeD [of n M xs a ys]) simp_all
    with ik k bd show False by simp
  qed
  from ij ik j k a b0 have imp: "implicant n M (xs @ CHR ''-'' # ys)"
    by (intro implicant_join) simp_all
  have djr: "dashes j = r"
  proof (rule ccontr)
    assume "dashes j \<noteq> r"
    from pj [OF this] j a have "\<not> implicant n M (xs @ CHR ''-'' # ys)"
      by (intro primeD [of n M xs a ys]) simp_all
    with imp show False by simp
  qed
  from j k a b0 have "dashes k = dashes j" by simp
  with djr j k a b0 mg imp
  have "j = xs @ CHR ''1'' # ys \<and> k = xs @ CHR ''0'' # ys
    \<and> merged j k = xs @ CHR ''-'' # ys \<and> dashes j = r \<and> dashes k = r
    \<and> implicant n M (xs @ CHR ''-'' # ys)" by simp
  then show ?thesis by blast
qed

lemma inv_complete:
  assumes inv: "merge_inv n M r ls st" and p: "implicant n M p" "dashes p = Suc r"
  shows "\<exists>j k. (j, k) \<in> visited ls \<and> mergeable j k \<and> merged j k = p"
proof -
  from inv have ls: "set ls = {p. implicant n M p \<and> dashes p \<le> r \<and> (dashes p = r \<or> prime n M p)}"
    by (simp add: merge_inv_def)
  from p(2) have "CHR ''-'' \<in> set p"
    by (auto simp: dashes_def filter_empty_conv dest!: arg_cong [where f = "\<lambda>k. k = 0"] )
  then obtain xs ys where sp: "p = xs @ CHR ''-'' # ys" by (auto dest: split_list)
  define j where "j = xs @ CHR ''1'' # ys"
  define k where "k = xs @ CHR ''0'' # ys"
  from p(1) sp have "implicant n M j" "implicant n M k"
    unfolding j_def k_def by (auto intro: implicant_below)
  moreover from p(2) sp have "dashes j = r" "dashes k = r"
    unfolding j_def k_def by simp_all
  ultimately have "j \<in> set ls" "k \<in> set ls" using ls by simp_all
  moreover have "count1 j = Suc (count1 k)" unfolding j_def k_def by simp
  ultimately have "(j, k) \<in> visited ls" by (simp add: visited_def)
  moreover have "mergeable j k \<and> merged j k = p"
    unfolding j_def k_def sp by (rule mergeable_split) simp
  ultimately show ?thesis by blast
qed

lemma inv_consumed:
  assumes inv: "merge_inv n M r ls st" and p: "p \<in> set ls"
  shows "(\<exists>(j, k) \<in> visited ls. mergeable j k \<and> (p = j \<or> p = k))
       = (dashes p = r \<and> \<not> prime n M p)"
proof
  assume "\<exists>(j, k) \<in> visited ls. mergeable j k \<and> (p = j \<or> p = k)"
  then obtain j k where v: "(j, k) \<in> visited ls" and m: "mergeable j k" and pj: "p = j \<or> p = k"
    by blast
  from inv_pair [OF inv v m] obtain xs ys where
    q: "j = xs @ CHR ''1'' # ys" "k = xs @ CHR ''0'' # ys" "dashes j = r" "dashes k = r"
    "implicant n M (xs @ CHR ''-'' # ys)" by blast
  from pj q have "dashes p = r" by blast
  moreover have "\<not> prime n M p"
  proof
    assume pr: "prime n M p"
    from pj show False
    proof
      assume "p = j"
      with pr q(1) have "\<not> implicant n M (xs @ CHR ''-'' # ys)"
        by (intro primeD [of n M xs "CHR ''1''" ys]) simp_all
      with q(5) show False by simp
    next
      assume "p = k"
      with pr q(2) have "\<not> implicant n M (xs @ CHR ''-'' # ys)"
        by (intro primeD [of n M xs "CHR ''0''" ys]) simp_all
      with q(5) show False by simp
    qed
  qed
  ultimately show "dashes p = r \<and> \<not> prime n M p" by simp
next
  assume a: "dashes p = r \<and> \<not> prime n M p"
  from inv have ls: "set ls = {p. implicant n M p \<and> dashes p \<le> r \<and> (dashes p = r \<or> prime n M p)}"
    by (simp add: merge_inv_def)
  from p ls have ip: "implicant n M p" by simp
  from not_primeE [OF ip] a obtain xs c ys where
    sp: "p = xs @ c # ys" and c: "c = CHR ''0'' \<or> c = CHR ''1''"
    and up: "implicant n M (xs @ CHR ''-'' # ys)" by blast
  define j where "j = xs @ CHR ''1'' # ys"
  define k where "k = xs @ CHR ''0'' # ys"
  from up have "implicant n M j" "implicant n M k"
    unfolding j_def k_def by (auto intro: implicant_below)
  moreover from a sp c have "dashes j = r" "dashes k = r"
    unfolding j_def k_def by auto
  ultimately have "j \<in> set ls" "k \<in> set ls" using ls by simp_all
  moreover have "count1 j = Suc (count1 k)" unfolding j_def k_def by simp
  ultimately have v: "(j, k) \<in> visited ls" by (simp add: visited_def)
  have m: "mergeable j k"
    unfolding j_def k_def using mergeable_split [of "CHR ''1''" "CHR ''0''" xs ys] by simp
  from sp c have "p = j \<or> p = k" unfolding j_def k_def by blast
  with v m show "\<exists>(j, k) \<in> visited ls. mergeable j k \<and> (p = j \<or> p = k)"
    by blast
qed

lemma merge_inv_subset: "merge_inv n M r ls st \<Longrightarrow> set ls \<subseteq> dom st"
  by (auto simp: merge_inv_def)

lemma round_inv:
  assumes inv: "merge_inv n M r ls st" and ne: "ls \<noteq> []"
  shows "\<exists>ls' st' f. round ls st = Some (ls', st', f) \<and> merge_inv n M (Suc r) ls' st'
     \<and> f = (\<exists>p. implicant n M p \<and> dashes p = Suc r)
     \<and> (\<not> f \<longrightarrow> ls' = ls \<and> st' = st)"
proof -
  from inv have dom: "dom st = {p. implicant n M p \<and> dashes p \<le> r}"
    and val: "\<forall>p \<in> dom st. st p = Some (cube n p)"
    and ls: "set ls = {p. implicant n M p \<and> dashes p \<le> r \<and> (dashes p = r \<or> prime n M p)}"
    by (simp_all add: merge_inv_def)
  define N where "N = {merged j k | j k. (j, k) \<in> visited ls \<and> mergeable j k}"
  from round_char [OF merge_inv_subset [OF inv] ne, folded N_def]
  obtain st' tls chk f where
    r: "round ls st = Some (tls @ filter (\<lambda>i. \<not> chk i) ls, st', f)"
    and chk: "\<forall>p. chk p = (\<exists>(j, k) \<in> visited ls. mergeable j k \<and> (p = j \<or> p = k))"
    and f: "f = (\<exists>(j, k) \<in> visited ls. mergeable j k)"
    and dom': "dom st' = dom st \<union> N"
    and old: "\<forall>p \<in> dom st. st' p = st p"
    and tls: "set tls = N - dom st"
    and new: "\<forall>p \<in> dom st' - dom st. \<exists>(j, k) \<in> visited ls. mergeable j k \<and> merged j k = p
            \<and> st' p = Some (at_st st j \<union> at_st st k)"
    by blast
  have N: "N = {p. implicant n M p \<and> dashes p = Suc r}"
  proof (rule set_eqI)
    fix p
    show "(p \<in> N) = (p \<in> {p. implicant n M p \<and> dashes p = Suc r})"
    proof
      assume "p \<in> N"
      then obtain j k where v: "(j, k) \<in> visited ls" and m: "mergeable j k" and p: "p = merged j k"
        unfolding N_def by blast
      from inv_pair [OF inv v m] p show "p \<in> {p. implicant n M p \<and> dashes p = Suc r}"
        by auto
    next
      assume "p \<in> {p. implicant n M p \<and> dashes p = Suc r}"
      then have "implicant n M p" "dashes p = Suc r" by simp_all
      from inv_complete [OF inv this] show "p \<in> N" unfolding N_def by blast
    qed
  qed
  have f': "f = (\<exists>p. implicant n M p \<and> dashes p = Suc r)"
  proof -
    have "f = (N \<noteq> {})" unfolding f N_def by blast
    then show ?thesis unfolding N by blast
  qed
  have A: "dom st' = {p. implicant n M p \<and> dashes p \<le> Suc r}"
    unfolding dom' dom N by (auto simp: le_Suc_eq)
  have B: "\<forall>p \<in> dom st'. st' p = Some (cube n p)"
  proof
    fix p assume p: "p \<in> dom st'"
    show "st' p = Some (cube n p)"
    proof (cases "p \<in> dom st")
      case True
      with old val show ?thesis by simp
    next
      case False
      with p new obtain j k where v: "(j, k) \<in> visited ls" and m: "mergeable j k"
        and mp: "merged j k = p" and sp: "st' p = Some (at_st st j \<union> at_st st k)"
        by blast
      from inv_pair [OF inv v m] mp obtain xs ys where
        j: "j = xs @ CHR ''1'' # ys" and k: "k = xs @ CHR ''0'' # ys"
        and px: "p = xs @ CHR ''-'' # ys" by auto
      from v merge_inv_subset [OF inv] have "j \<in> dom st" "k \<in> dom st"
        by (auto simp: visited_def)
      with val have "at_st st j = cube n j" "at_st st k = cube n k"
        by (simp_all add: at_st_def)
      with sp show ?thesis
        unfolding px j k cube_dash by (simp add: Un_commute)
    qed
  qed
  have tls': "set tls = N"
    unfolding tls dom N by auto
  have keep: "{p \<in> set ls. \<not> chk p} = {p. implicant n M p \<and> dashes p \<le> r \<and> prime n M p}"
  proof -
    have "\<And>p. p \<in> set ls \<Longrightarrow> chk p = (dashes p = r \<and> \<not> prime n M p)"
      using inv_consumed [OF inv] chk by simp
    then have "{p \<in> set ls. \<not> chk p} = {p \<in> set ls. \<not> (dashes p = r \<and> \<not> prime n M p)}"
      by blast
    also have "\<dots> = {p. implicant n M p \<and> dashes p \<le> r \<and> prime n M p}"
      unfolding ls by blast
    finally show ?thesis .
  qed
  have C: "set (tls @ filter (\<lambda>i. \<not> chk i) ls)
      = {p. implicant n M p \<and> dashes p \<le> Suc r \<and> (dashes p = Suc r \<or> prime n M p)}"
  proof -
    have "set (tls @ filter (\<lambda>i. \<not> chk i) ls) = N \<union> {p \<in> set ls. \<not> chk p}"
      by (simp add: tls')
    also have "\<dots> = {p. implicant n M p \<and> dashes p \<le> Suc r \<and> (dashes p = Suc r \<or> prime n M p)}"
      unfolding keep N by (auto simp: le_Suc_eq)
    finally show ?thesis .
  qed
  have D: "\<not> f \<longrightarrow> tls @ filter (\<lambda>i. \<not> chk i) ls = ls \<and> st' = st"
  proof
    assume nf: "\<not> f"
    with f have none: "\<And>j k. (j, k) \<in> visited ls \<Longrightarrow> \<not> mergeable j k" by blast
    then have "N = {}" unfolding N_def by blast
    with tls' have t: "tls = []" by simp
    from none chk have "\<And>p. \<not> chk p" by blast
    then have fl: "filter (\<lambda>i. \<not> chk i) ls = ls" by simp
    have "st' p = st p" for p
    proof (cases "p \<in> dom st")
      case True
      with old show ?thesis by simp
    next
      case False
      with dom' \<open>N = {}\<close> have "p \<notin> dom st'" by simp
      with False show ?thesis by (simp add: domIff)
    qed
    then have "st' = st" by (rule ext)
    with t fl show "tls @ filter (\<lambda>i. \<not> chk i) ls = ls \<and> st' = st" by simp
  qed
  have inv': "merge_inv n M (Suc r) (tls @ filter (\<lambda>i. \<not> chk i) ls) st'"
    unfolding merge_inv_def using A B C by blast
  show ?thesis
    apply (rule exI [of _ "tls @ filter (\<lambda>i. \<not> chk i) ls"], rule exI [of _ st'], rule exI [of _ f])
    apply (intro conjI)
       apply (rule r)
      apply (rule inv')
     apply (rule f')
    apply (rule D)
    done
qed

section \<open>The merge loop\<close>

subsection \<open>The first state\<close>

lemma QMA_convert_eq:
  "QMA_convert n m (ls0, st0)
     = (ls0 @ map (to_string n) m,
        (\<lambda>p. if p \<in> to_string n ` set m
              then Some (at_st st0 p \<union> {i \<in> set m. to_string n i = p}) else st0 p))"
proof (induction m arbitrary: ls0 st0)
  case Nil
  show ?case by simp
next
  case (Cons i m)
  define t where "t = to_string n i"
  define st1 where "st1 = st0(t \<mapsto> insert i (at_st st0 t))"
  have step: "QMA_convert n (i # m) (ls0, st0) = QMA_convert n m (ls0 @ [t], st1)"
    by (simp add: t_def st1_def Let_def)
  have "(if p \<in> to_string n ` set m
              then Some (at_st st1 p \<union> {i' \<in> set m. to_string n i' = p}) else st1 p)
      = (if p \<in> to_string n ` set (i # m)
              then Some (at_st st0 p \<union> {i' \<in> set (i # m). to_string n i' = p}) else st0 p)" for p
  proof (cases "p = t")
    case True
    define S where "S = {i' \<in> set m. to_string n i' = t}"
    have S': "{i' \<in> set (i # m). to_string n i' = t} = insert i S"
      unfolding S_def t_def by auto
    have a1: "at_st st1 t = insert i (at_st st0 t)" "st1 t = Some (insert i (at_st st0 t))"
      by (simp_all add: st1_def at_st_def)
    have in': "t \<in> to_string n ` set (i # m)" by (simp add: t_def)
    show ?thesis
    proof (cases "t \<in> to_string n ` set m")
      case True
      have "Some (at_st st1 t \<union> S) = Some (at_st st0 t \<union> insert i S)"
        by (simp add: a1)
      with True in' show ?thesis
        unfolding \<open>p = t\<close> S' S_def [symmetric] by (simp only: if_True)
    next
      case False
      then have "S = {}" unfolding S_def by blast
      then have "st1 t = Some (at_st st0 t \<union> insert i S)"
        by (simp add: a1)
      with False in' show ?thesis
        unfolding \<open>p = t\<close> S' S_def [symmetric] by (simp only: if_True if_False)
    qed
  next
    case False
    then have "at_st st1 p = at_st st0 p" "st1 p = st0 p" "to_string n i \<noteq> p"
      by (auto simp: st1_def at_st_def t_def)
    then show ?thesis by auto
  qed
  then show ?case
    unfolding step Cons.IH by (simp add: t_def)
qed

lemma dashes_0: "(dashes p = 0) = (CHR ''-'' \<notin> set p)"
  by (auto simp: dashes_def filter_empty_conv)

lemma implicant_to_string:
  "i < 2 ^ n \<Longrightarrow> i \<in> M \<Longrightarrow> implicant n M (to_string n i) \<and> dashes (to_string n i) = 0"
  using set_to_string [of n i]
  by (auto simp: implicant_def wf_pat_def length_to_string cube_to_string dashes_0)

lemma implicant_0:
  assumes "implicant n M p" and "dashes p = 0"
  shows "\<exists>i \<in> M. i < 2 ^ n \<and> to_string n i = p"
proof -
  from assms have "length p = n" "set p \<subseteq> {CHR ''0'', CHR ''1''}"
    by (auto simp: implicant_def wf_pat_def dashes_0)
  from to_string_surj [OF this] obtain i where i: "i < 2 ^ n" "to_string n i = p" by blast
  with cube_to_string [of i n] assms(1) have "i \<in> M" by (auto simp: implicant_def)
  with i show ?thesis by blast
qed

lemma merge_inv_first:
  assumes m: "set m \<subseteq> {..<2 ^ n}" and c: "QMA_convert n m ([], Map.empty) = (ls, st)"
  shows "merge_inv n (set m) 0 ls st"
proof -
  from c have ls: "ls = map (to_string n) m"
    and st: "st = (\<lambda>p. if p \<in> to_string n ` set m then Some {i \<in> set m. to_string n i = p} else None)"
    by (auto simp: QMA_convert_eq at_st_def)
  have img: "to_string n ` set m = {p. implicant n (set m) p \<and> dashes p = 0}"
  proof (rule set_eqI)
    fix p
    show "(p \<in> to_string n ` set m) = (p \<in> {p. implicant n (set m) p \<and> dashes p = 0})"
      using implicant_to_string [of _ n "set m"] implicant_0 [of n "set m" p] m by auto
  qed
  have A: "dom st = {p. implicant n (set m) p \<and> dashes p \<le> 0}"
    unfolding st using img by (auto simp: dom_def)
  have B: "\<forall>p \<in> dom st. st p = Some (cube n p)"
  proof
    fix p assume "p \<in> dom st"
    then have "p \<in> to_string n ` set m" unfolding st by (auto simp: dom_def split: if_splits)
    then obtain i where i: "i \<in> set m" "p = to_string n i" by blast
    with m have lt: "i < 2 ^ n" by auto
    have "{i' \<in> set m. to_string n i' = p} = {i}"
      using i lt m by (auto dest: to_string_inj)
    with i lt show "st p = Some (cube n p)"
      unfolding st by (simp add: cube_to_string)
  qed
  have C: "set ls = {p. implicant n (set m) p \<and> dashes p \<le> 0 \<and> (dashes p = 0 \<or> prime n (set m) p)}"
    unfolding ls using img by auto
  show ?thesis unfolding merge_inv_def using A B C by blast
qed

subsection \<open>The patterns of ls cover the minterms\<close>

lemma merge_inv_above:
  "merge_inv n M r ls st \<Longrightarrow> implicant n M p \<Longrightarrow> dashes p \<le> r \<Longrightarrow>
   \<exists>q \<in> set ls. cube n p \<subseteq> cube n q"
proof (induction "r - dashes p" arbitrary: p rule: less_induct)
  case less
  from less.prems(1) have ls: "set ls = {p. implicant n M p \<and> dashes p \<le> r \<and> (dashes p = r \<or> prime n M p)}"
    by (simp add: merge_inv_def)
  show ?case
  proof (cases "dashes p = r \<or> prime n M p")
    case True
    with less.prems ls have "p \<in> set ls" by simp
    then show ?thesis by blast
  next
    case False
    then have lt: "dashes p < r" and np: "\<not> prime n M p" using less.prems(3) by auto
    from not_primeE [OF less.prems(2) np] obtain xs a ys where
      p: "p = xs @ a # ys" and a: "a = CHR ''0'' \<or> a = CHR ''1''"
      and up: "implicant n M (xs @ CHR ''-'' # ys)" by blast
    from p a have d: "dashes (xs @ CHR ''-'' # ys) = Suc (dashes p)" by auto
    with lt have "r - dashes (xs @ CHR ''-'' # ys) < r - dashes p" "dashes (xs @ CHR ''-'' # ys) \<le> r"
      by simp_all
    from less.hyps [OF this(1) less.prems(1) up this(2)]
    obtain q where q: "q \<in> set ls" "cube n (xs @ CHR ''-'' # ys) \<subseteq> cube n q" by blast
    from cube_dash_weaker [of n xs a ys] q(2) have "cube n p \<subseteq> cube n q"
      unfolding p by blast
    with q(1) show ?thesis by blast
  qed
qed

lemma merge_inv_cover:
  assumes inv: "merge_inv n M r ls st" and M: "M \<subseteq> {..<2 ^ n}"
  shows "(\<Union>p \<in> set ls. at_st st p) = M \<and> (\<forall>p \<in> set ls. at_st st p = cube n p)"
proof -
  from inv have val: "\<forall>p \<in> dom st. st p = Some (cube n p)"
    and ls: "set ls = {p. implicant n M p \<and> dashes p \<le> r \<and> (dashes p = r \<or> prime n M p)}"
    by (simp_all add: merge_inv_def)
  have at: "\<forall>p \<in> set ls. at_st st p = cube n p"
  proof
    fix p assume "p \<in> set ls"
    with merge_inv_subset [OF inv] have "p \<in> dom st" by blast
    with val have "st p = Some (cube n p)" by blast
    then show "at_st st p = cube n p" by (simp add: at_st_def)
  qed
  have "(\<Union>p \<in> set ls. cube n p) = M"
  proof
    show "(\<Union>p \<in> set ls. cube n p) \<subseteq> M"
      unfolding ls by (auto simp: implicant_def)
  next
    show "M \<subseteq> (\<Union>p \<in> set ls. cube n p)"
    proof
      fix i assume i: "i \<in> M"
      with M have lt: "i < 2 ^ n" by auto
      from implicant_to_string [OF lt i] merge_inv_above [OF inv, of "to_string n i"]
      obtain q where "q \<in> set ls" "cube n (to_string n i) \<subseteq> cube n q" by auto
      with cube_to_string [OF lt] show "i \<in> (\<Union>p \<in> set ls. cube n p)" by auto
    qed
  qed
  with at show ?thesis by simp
qed

lemma merge_inv_nonempty:
  "merge_inv n M r ls st \<Longrightarrow> M \<subseteq> {..<2 ^ n} \<Longrightarrow> M \<noteq> {} \<Longrightarrow> ls \<noteq> []"
  using merge_inv_cover [of n M r ls st] by auto

subsection \<open>The loop\<close>

lemma implicant_dashes: "implicant n M p \<Longrightarrow> dashes p \<le> n"
  using dashes_le_length [of p] by (simp add: implicant_def wf_pat_def)

lemma round_Some_nonempty: "round ls st = Some x \<Longrightarrow> ls \<noteq> []"
  by (auto simp: round_def)

lemma pass_inv:
  "pass n m r ls st \<Longrightarrow> set m \<subseteq> {..<2 ^ n} \<Longrightarrow> merge_inv n (set m) r ls st"
proof (induction rule: pass.induct)
  case (pass_first n m ls st)
  then show ?case by (simp add: merge_inv_first)
next
  case (pass_next n m r ls st ls' st')
  then have inv: "merge_inv n (set m) r ls st" by simp
  from round_inv [OF inv round_Some_nonempty [OF pass_next.hyps(2)]] pass_next.hyps(2)
  show ?case by auto
qed

lemma merge_loop_pass:
  assumes M: "set m \<subseteq> {..<2 ^ n}" "m \<noteq> []"
  shows "pass n m r ls st \<Longrightarrow>
    \<exists>ls' st' r'. merge_loop ls st = Some (ls', st') \<and> pass n m r' ls' st'
       \<and> round ls' st' = Some (ls', st', False)"
proof (induction "Suc n - r" arbitrary: r ls st rule: less_induct)
  case less
  note p = less.prems
  note inv = pass_inv [OF p M(1)]
  from M(2) have ne: "set m \<noteq> {}" by simp
  from round_inv [OF inv merge_inv_nonempty [OF inv M(1) ne]]
  obtain ls1 st1 f where r: "round ls st = Some (ls1, st1, f)"
    and f: "f = (\<exists>p. implicant n (set m) p \<and> dashes p = Suc r)"
    and same: "\<not> f \<longrightarrow> ls1 = ls \<and> st1 = st" by blast
  show ?case
  proof (cases f)
    case False
    with same have eq: "ls1 = ls" "st1 = st" by simp_all
    from r False have "merge_loop ls st = Some (ls, st)"
      by (subst merge_loop.simps) (simp add: eq)
    moreover from r False eq have "round ls st = Some (ls, st, False)" by simp
    ultimately show ?thesis using p by blast
  next
    case True
    with f obtain q where "implicant n (set m) q" "dashes q = Suc r" by blast
    with implicant_dashes [of n "set m" q] have less': "Suc n - Suc r < Suc n - r" by simp
    from r True have "pass n m (Suc r) ls1 st1" by (intro pass_next [OF p]) simp
    from less.hyps [OF less' this] obtain ls' st' r' where
      e: "merge_loop ls1 st1 = Some (ls', st')" "pass n m r' ls' st'"
         "round ls' st' = Some (ls', st', False)" by blast
    from r True have "merge_loop ls st = merge_loop ls1 st1"
      by (subst merge_loop.simps) simp
    with e show ?thesis by auto
  qed
qed

lemma implicant_fewer:
  "implicant n M p \<Longrightarrow> k \<le> dashes p \<Longrightarrow> \<exists>q. implicant n M q \<and> dashes q = k"
proof (induction "dashes p - k" arbitrary: p rule: less_induct)
  case less
  show ?case
  proof (cases "dashes p = k")
    case True
    with less.prems show ?thesis by blast
  next
    case False
    with less.prems have gt: "k < dashes p" by simp
    then have "CHR ''-'' \<in> set p" using dashes_0 [of p] by auto
    then obtain xs ys where sp: "p = xs @ CHR ''-'' # ys" by (auto dest: split_list)
    define q where "q = xs @ CHR ''0'' # ys"
    from less.prems(1) sp have iq: "implicant n M q"
      unfolding q_def by (auto intro: implicant_below)
    from sp have dq: "dashes p = Suc (dashes q)" unfolding q_def by simp
    with gt have "dashes q - k < dashes p - k" "k \<le> dashes q" by simp_all
    from less.hyps [OF this(1) iq this(2)] show ?thesis .
  qed
qed

lemma round_False_primes:
  assumes inv: "merge_inv n M r ls st" and r: "round ls st = Some (ls', st', False)"
  shows "set ls = {p. prime n M p}"
proof -
  from round_inv [OF inv round_Some_nonempty [OF r]] r
  have none: "\<not> (\<exists>p. implicant n M p \<and> dashes p = Suc r)" by auto
  have le: "dashes p \<le> r" if "implicant n M p" for p
  proof (rule ccontr)
    assume "\<not> dashes p \<le> r"
    then have "Suc r \<le> dashes p" by simp
    from implicant_fewer [OF that this] none show False by blast
  qed
  have pr: "prime n M p" if ip: "implicant n M p" and d: "dashes p = r" for p
    unfolding prime_def
  proof (intro conjI allI impI ip)
    fix xs a ys assume a: "p = xs @ a # ys \<and> a \<noteq> CHR ''-''"
    show "\<not> implicant n M (xs @ CHR ''-'' # ys)"
    proof
      assume "implicant n M (xs @ CHR ''-'' # ys)"
      from le [OF this] a d show False by simp
    qed
  qed
  from inv have "set ls = {p. implicant n M p \<and> dashes p \<le> r \<and> (dashes p = r \<or> prime n M p)}"
    by (simp add: merge_inv_def)
  also have "\<dots> = {p. prime n M p}"
    using le pr by (auto simp: prime_def)
  finally show ?thesis .
qed

lemma merge_loop_result:
  assumes "set m \<subseteq> {..<2 ^ n}" and "m \<noteq> []"
    and "QMA_convert n m ([], Map.empty) = (ls0, st0)"
  shows "\<exists>ls st r. merge_loop ls0 st0 = Some (ls, st) \<and> pass n m r ls st
     \<and> round ls st = Some (ls, st, False)
     \<and> set ls = {p. prime n (set m) p}
     \<and> (\<forall>p \<in> set ls. st p = Some (cube n p) \<and> cube n p \<subseteq> set m)"
proof -
  from merge_loop_pass [OF assms(1,2) pass_first [OF assms(3)]]
  obtain ls st r where l: "merge_loop ls0 st0 = Some (ls, st)" and p: "pass n m r ls st"
    and r: "round ls st = Some (ls, st, False)" by blast
  note inv = pass_inv [OF p assms(1)]
  note pr = round_False_primes [OF inv r]
  have "\<forall>p \<in> set ls. st p = Some (cube n p) \<and> cube n p \<subseteq> set m"
  proof
    fix q assume q: "q \<in> set ls"
    with merge_inv_subset [OF inv] have "q \<in> dom st" by blast
    with inv have "st q = Some (cube n q)" by (simp add: merge_inv_def)
    moreover from q pr have "cube n q \<subseteq> set m" by (simp add: prime_def implicant_def)
    ultimately show "st q = Some (cube n q) \<and> cube n q \<subseteq> set m" by simp
  qed
  with l p r pr show ?thesis by blast
qed

text \<open>
  C7. For the minterm list of a table (indices below \<open>2^n\<close>) that is not empty, as
  \<open>QMA\<close> is called, the loop ends: after finitely many passes it is in a state on
  which a pass makes no merge (\<open>f\<close> stays false and \<open>ls\<close>, \<open>st\<close> are unchanged), and this
  state is what the loop hands on. Its \<open>ls\<close> holds exactly the prime implicants of the
  minterm set, and \<open>st\<close> gives each of them its cube as coverage set.
\<close>

theorem merge_loop_terminates:
  assumes "set m \<subseteq> {..<2 ^ n}" and "m \<noteq> []"
    and "QMA_convert n m ([], Map.empty) = (ls0, st0)"
  shows "\<exists>ls st r. merge_loop ls0 st0 = Some (ls, st) \<and> pass n m r ls st
     \<and> round ls st = Some (ls, st, False)
     \<and> set ls = {p. prime n (set m) p}
     \<and> (\<forall>p \<in> set ls. st p = Some (cube n p) \<and> cube n p \<subseteq> set m)"
  using assms by (rule merge_loop_result)

theorem merge_loop_terminates_witness:
  "\<exists>st r. merge_loop [''10'', ''11''] (snd (QMA_convert 2 [2, 3] ([], Map.empty))) = Some ([''1-''], st)
     \<and> pass 2 [2, 3] r [''1-''] st \<and> round [''1-''] st = Some ([''1-''], st, False)
     \<and> set [''1-''] = {p. prime 2 (set [2, 3]) p}"
proof -
  have 1: "set [2, 3 :: nat] \<subseteq> {..<2 ^ 2}" by simp
  have 2: "[2, 3 :: nat] \<noteq> []" by simp
  have "fst (QMA_convert 2 [2, 3] ([], Map.empty)) = [''10'', ''11'']"
    by code_simp
  then have 3: "QMA_convert 2 [2, 3] ([], Map.empty)
      = ([''10'', ''11''], snd (QMA_convert 2 [2, 3] ([], Map.empty)))"
    by (simp add: prod_eq_iff)
  have 4: "map_option fst (merge_loop [''10'', ''11''] (snd (QMA_convert 2 [2, 3] ([], Map.empty))))
      = Some [''1-'']"
    by code_simp
  from merge_loop_terminates [OF 1 2 3] obtain ls st r where
    r: "merge_loop [''10'', ''11''] (snd (QMA_convert 2 [2, 3] ([], Map.empty))) = Some (ls, st)"
    "pass 2 [2, 3] r ls st" "round ls st = Some (ls, st, False)"
    "set ls = {p. prime 2 (set [2, 3]) p}" by blast
  from r(1) 4 have "ls = [''1-'']" by simp
  with r show ?thesis by blast
qed

lemma adjacent_sym:
  assumes "adjacent j k l"
  shows "adjacent k j l"
proof -
  from assms have a: "length j = length k" "l < length j" "j ! l \<noteq> k ! l"
    "j ! l \<noteq> CHR ''-''" "k ! l \<noteq> CHR ''-''"
    and b: "\<And>l'. l' < length j \<Longrightarrow> l' \<noteq> l \<Longrightarrow> j ! l' = k ! l'"
    by (simp_all add: adjacent_def)
  have c: "\<forall>l' < length k. l' \<noteq> l \<longrightarrow> k ! l' = j ! l'"
  proof (intro allI impI)
    fix l' assume "l' < length k" "l' \<noteq> l"
    with a(1) b [of l'] show "k ! l' = j ! l'" by simp
  qed
  from a have d: "length k = length j" "l < length k" "k ! l \<noteq> j ! l" by simp_all
  show ?thesis unfolding adjacent_def
    by (intro conjI d a(4,5) c)
qed

text \<open>
  C6. In every pass of the merge loop of a run (on minterms below \<open>2^n\<close>): a pattern
  that the pass adds to \<open>st\<close> is built from two patterns of \<open>ls\<close> that have \<open>-\<close> at the same
  positions and differ at exactly one other position, by putting \<open>-\<close> at that position,
  and it goes into the next \<open>ls\<close> with the union of their coverage sets; a pattern of
  \<open>ls\<close> that is adjacent to no pattern of \<open>ls\<close> is in the next \<open>ls\<close>; and when the pass
  makes no merge the loop ends with \<open>ls\<close> and \<open>st\<close> as they are.
\<close>

theorem merge_adjacency_rule:
  assumes m: "set m \<subseteq> {..<2 ^ n}" and p: "pass n m r ls st"
    and r: "round ls st = Some (ls', st', f)"
  shows "(\<forall>p. st p = None \<and> st' p \<noteq> None \<longrightarrow>
            (\<exists>j \<in> set ls. \<exists>k \<in> set ls. \<exists>l. adjacent j k l \<and> p = dashed j l
                \<and> p \<in> set ls' \<and> st' p = Some (at_st st j \<union> at_st st k)))
       \<and> (\<forall>p \<in> set ls. (\<forall>q \<in> set ls. \<forall>l. \<not> adjacent p q l) \<longrightarrow> p \<in> set ls')
       \<and> (\<not> f \<longrightarrow> ls' = ls \<and> st' = st \<and> merge_loop ls st = Some (ls, st))"
proof -
  note inv = pass_inv [OF p m]
  note ne = round_Some_nonempty [OF r]
  define N where "N = {merged j k | j k. (j, k) \<in> visited ls \<and> mergeable j k}"
  from round_char [OF merge_inv_subset [OF inv] ne, folded N_def]
  obtain st'' tls chk f'' where
    rc: "round ls st = Some (tls @ filter (\<lambda>i. \<not> chk i) ls, st'', f'')"
    and chk: "\<forall>p. chk p = (\<exists>(j, k) \<in> visited ls. mergeable j k \<and> (p = j \<or> p = k))"
    and tls: "set tls = N - dom st"
    and new'': "\<forall>p \<in> dom st'' - dom st. \<exists>(j, k) \<in> visited ls. mergeable j k \<and> merged j k = p
            \<and> st'' p = Some (at_st st j \<union> at_st st k)"
    by blast
  from rc r have ls': "ls' = tls @ filter (\<lambda>i. \<not> chk i) ls" and "st'' = st'" by simp_all
  with new'' have new: "\<forall>p \<in> dom st' - dom st. \<exists>(j, k) \<in> visited ls. mergeable j k \<and> merged j k = p
            \<and> st' p = Some (at_st st j \<union> at_st st k)" by simp
  have A: "\<forall>p. st p = None \<and> st' p \<noteq> None \<longrightarrow>
            (\<exists>j \<in> set ls. \<exists>k \<in> set ls. \<exists>l. adjacent j k l \<and> p = dashed j l
                \<and> p \<in> set ls' \<and> st' p = Some (at_st st j \<union> at_st st k))"
  proof (intro allI impI)
    fix p assume a: "st p = None \<and> st' p \<noteq> None"
    then have "p \<in> dom st' - dom st" by (auto simp: domIff)
    with new obtain j k where v: "(j, k) \<in> visited ls" and mg: "mergeable j k"
      and mp: "merged j k = p" and sp: "st' p = Some (at_st st j \<union> at_st st k)"
      by blast
    from inv_pair [OF inv v mg] mp obtain xs ys where
      j: "j = xs @ CHR ''1'' # ys" and k: "k = xs @ CHR ''0'' # ys"
      and px: "p = xs @ CHR ''-'' # ys" by auto
    from adjacent_split [of "CHR ''1''" "CHR ''0''" xs ys] j k px
    have adj: "adjacent j k (length xs)" "p = dashed j (length xs)" by simp_all
    from a have "p \<notin> dom st" by (simp add: domIff)
    moreover from v mg mp have "p \<in> N"
      unfolding N_def by blast
    ultimately have "p \<in> set tls" unfolding tls by simp
    then have pl: "p \<in> set ls'" by (simp add: ls')
    from v have jk: "j \<in> set ls" "k \<in> set ls" by (simp_all add: visited_def)
    show "\<exists>j \<in> set ls. \<exists>k \<in> set ls. \<exists>l. adjacent j k l \<and> p = dashed j l
                \<and> p \<in> set ls' \<and> st' p = Some (at_st st j \<union> at_st st k)"
      by (intro bexI [of _ j] bexI [of _ k] exI [of _ "length xs"] conjI adj pl sp jk)
  qed
  have B: "\<forall>p \<in> set ls. (\<forall>q \<in> set ls. \<forall>l. \<not> adjacent p q l) \<longrightarrow> p \<in> set ls'"
  proof (intro ballI impI)
    fix p assume pl: "p \<in> set ls" and none: "\<forall>q \<in> set ls. \<forall>l. \<not> adjacent p q l"
    have "\<not> chk p"
    proof
      assume "chk p"
      with chk obtain j k where v: "(j, k) \<in> visited ls" and mg: "mergeable j k"
        and pj: "p = j \<or> p = k" by blast
      from inv_pair [OF inv v mg] obtain xs ys where
        j: "j = xs @ CHR ''1'' # ys" and k: "k = xs @ CHR ''0'' # ys" by auto
      from adjacent_split [of "CHR ''1''" "CHR ''0''" xs ys] j k
      have adj: "adjacent j k (length xs)" by simp
      from v have "j \<in> set ls" "k \<in> set ls" by (simp_all add: visited_def)
      from pj show False
      proof
        assume "p = j"
        with none \<open>k \<in> set ls\<close> adj show False by blast
      next
        assume "p = k"
        with none \<open>j \<in> set ls\<close> adjacent_sym [OF adj] show False by blast
      qed
    qed
    with pl show "p \<in> set ls'" by (simp add: ls')
  qed
  have C: "\<not> f \<longrightarrow> ls' = ls \<and> st' = st \<and> merge_loop ls st = Some (ls, st)"
  proof
    assume nf: "\<not> f"
    from round_inv [OF inv ne] r nf have eq: "ls' = ls" "st' = st" by auto
    from r nf eq have "merge_loop ls st = Some (ls, st)"
      by (subst merge_loop.simps) simp
    with eq show "ls' = ls \<and> st' = st \<and> merge_loop ls st = Some (ls, st)" by simp
  qed
  from A B C show ?thesis by (intro conjI)
qed

theorem merge_adjacency_rule_witness:
  "\<exists>st ls' st' f. pass 2 [2, 3] 0 [''10'', ''11''] st
     \<and> round [''10'', ''11''] st = Some (ls', st', f)
     \<and> st ''1-'' = None \<and> st' ''1-'' \<noteq> None
     \<and> (\<exists>j \<in> set [''10'', ''11'']. \<exists>k \<in> set [''10'', ''11'']. \<exists>l.
            adjacent j k l \<and> ''1-'' = dashed j l \<and> ''1-'' \<in> set ls'
            \<and> st' ''1-'' = Some (at_st st j \<union> at_st st k))"
proof -
  define st where "st = snd (QMA_convert 2 [2, 3] ([], Map.empty))"
  have m: "set [2, 3 :: nat] \<subseteq> {..<2 ^ 2}" by simp
  have "fst (QMA_convert 2 [2, 3] ([], Map.empty)) = [''10'', ''11'']"
    by code_simp
  then have c: "QMA_convert 2 [2, 3] ([], Map.empty) = ([''10'', ''11''], st)"
    by (simp add: prod_eq_iff st_def)
  have p: "pass 2 [2, 3] 0 [''10'', ''11''] st"
    by (rule pass_first [OF c])
  have "\<not> Option.is_none (round [''10'', ''11''] st)"
    unfolding st_def by code_simp
  then obtain ls' st' f where r: "round [''10'', ''11''] st = Some (ls', st', f)"
    by (cases "round [''10'', ''11''] st") (auto simp: Option.is_none_def)
  have n1: "st ''1-'' = None"
    unfolding st_def by code_simp
  have "\<not> Option.is_none (fst (snd (the (round [''10'', ''11''] st))) ''1-'')"
    unfolding st_def by code_simp
  with r have n2: "st' ''1-'' \<noteq> None"
    by (simp add: Option.is_none_def)
  from merge_adjacency_rule [OF m p r] n1 n2
  have "\<exists>j \<in> set [''10'', ''11'']. \<exists>k \<in> set [''10'', ''11'']. \<exists>l.
            adjacent j k l \<and> ''1-'' = dashed j l \<and> ''1-'' \<in> set ls'
            \<and> st' ''1-'' = Some (at_st st j \<union> at_st st k)"
    by blast
  with p r n1 n2 show ?thesis by blast
qed

section \<open>The selection loop of gpl\<close>

lemma count_elements_eq:
  "set ls \<subseteq> dom st \<Longrightarrow>
   count_elements ls st cnt0
     = Some (\<lambda>j. if \<exists>i \<in> set ls. j \<in> at_st st i
                  then Some ({i \<in> set ls. j \<in> at_st st i} \<union> (case cnt0 j of None \<Rightarrow> {} | Some t \<Rightarrow> t))
                  else cnt0 j)"
proof (induction ls arbitrary: cnt0)
  case Nil
  show ?case by simp
next
  case (Cons i ls)
  from Cons.prems obtain s where s: "st i = Some s" and sub: "set ls \<subseteq> dom st" by auto
  then have at: "at_st st i = s" by (simp add: at_st_def)
  define cnt1 where "cnt1 = (\<lambda>j. if j \<in> s then Some (insert i (case cnt0 j of None \<Rightarrow> {} | Some t \<Rightarrow> t))
                 else cnt0 j)"
  have step: "count_elements (i # ls) st cnt0 = count_elements ls st cnt1"
    by (simp add: s cnt1_def)
  have "(if \<exists>i' \<in> set ls. j \<in> at_st st i'
                  then Some ({i' \<in> set ls. j \<in> at_st st i'} \<union> (case cnt1 j of None \<Rightarrow> {} | Some t \<Rightarrow> t))
                  else cnt1 j)
      = (if \<exists>i' \<in> set (i # ls). j \<in> at_st st i'
                  then Some ({i' \<in> set (i # ls). j \<in> at_st st i'} \<union> (case cnt0 j of None \<Rightarrow> {} | Some t \<Rightarrow> t))
                  else cnt0 j)" for j
  proof (cases "j \<in> s")
    case True
    have "{i' \<in> set (i # ls). j \<in> at_st st i'} = insert i {i' \<in> set ls. j \<in> at_st st i'}"
      using True at by auto
    moreover have "\<exists>i' \<in> set (i # ls). j \<in> at_st st i'" using True at by auto
    moreover have "\<not> (\<exists>i' \<in> set ls. j \<in> at_st st i') \<Longrightarrow> {i' \<in> set ls. j \<in> at_st st i'} = {}"
      by blast
    ultimately show ?thesis using True by (auto simp: cnt1_def)
  next
    case False
    have "{i' \<in> set (i # ls). j \<in> at_st st i'} = {i' \<in> set ls. j \<in> at_st st i'}"
      using False at by auto
    moreover have "(\<exists>i' \<in> set (i # ls). j \<in> at_st st i') = (\<exists>i' \<in> set ls. j \<in> at_st st i')"
      using False at by auto
    ultimately show ?thesis using False by (simp add: cnt1_def)
  qed
  then show ?case unfolding step Cons.IH [OF sub] by simp
qed

lemma gpl_inv_first:
  assumes sub: "set ls \<subseteq> dom st" and fin: "\<forall>p \<in> set ls. finite (at_st st p)"
  shows "\<exists>cnt. count_elements ls st Map.empty = Some cnt \<and> gpl_inv ls (at_st st) cnt (at_st st) []"
proof -
  define cnt where "cnt = (\<lambda>j. if \<exists>i \<in> set ls. j \<in> at_st st i
                  then Some {i \<in> set ls. j \<in> at_st st i} else None)"
  have c: "count_elements ls st Map.empty = Some cnt"
    unfolding count_elements_eq [OF sub] cnt_def by (simp cong: if_cong)
  have "dom cnt = (\<Union>p \<in> set ls. at_st st p)"
    unfolding cnt_def by (auto simp: dom_def)
  with fin have 1: "finite (dom cnt)" by simp
  have 2: "\<forall>j c. cnt j = Some c \<longrightarrow> c \<noteq> {} \<and> finite c \<and> c \<subseteq> set ls \<and> (\<forall>p \<in> c. j \<in> at_st st p)"
    unfolding cnt_def by (auto split: if_splits)
  have 3: "\<forall>j. (\<exists>p \<in> set ls. j \<in> at_st st p) \<longrightarrow> j \<in> dom cnt \<or> (\<exists>p \<in> set []. j \<in> at_st st p)"
    unfolding cnt_def by (auto simp: dom_def)
  from 1 2 3 fin have "gpl_inv ls (at_st st) cnt (at_st st) []"
    unfolding gpl_inv_def by simp
  with c show ?thesis by blast
qed

lemma gpl_inv_step:
  assumes inv: "gpl_inv ls st0 cnt st rtn" and c: "cnt mns = Some c" and pk: "pick_max st c ms"
  shows "gpl_inv ls st0 (\<lambda>i. if i \<in> st ms then None else cnt i)
           (\<lambda>p. if p = ms then {} else st p - st ms) (rtn @ [ms])
       \<and> ms \<in> c \<and> mns \<in> st ms"
proof -
  from inv have fd: "finite (dom cnt)"
    and cs: "\<And>j c. cnt j = Some c \<Longrightarrow> c \<noteq> {} \<and> finite c \<and> c \<subseteq> set ls \<and> (\<forall>p \<in> c. j \<in> st p)"
    and sub: "\<And>p. st p \<subseteq> st0 p"
    and fin: "\<And>p. p \<in> set ls \<Longrightarrow> finite (st0 p)"
    and rt: "set rtn \<subseteq> set ls"
    and cov: "\<And>j. \<exists>p \<in> set ls. j \<in> st0 p \<Longrightarrow> j \<in> dom cnt \<or> (\<exists>p \<in> set rtn. j \<in> st0 p)"
    unfolding gpl_inv_def by blast+
  from cs [OF c] have cne: "c \<noteq> {}" and cls: "c \<subseteq> set ls" and cm: "\<And>p. p \<in> c \<Longrightarrow> mns \<in> st p"
    by blast+
  have pos: "card (st p) \<noteq> 0" if "p \<in> c" for p
  proof -
    from that cls have "finite (st0 p)" by (intro fin) blast
    with sub [of p] have "finite (st p)" by (rule finite_subset)
    with cm [OF that] show ?thesis by auto
  qed
  from cne pos have "\<not> (\<forall>i \<in> c. card (st i) = 0)" by blast
  with pk have ms: "ms \<in> c" by (simp add: pick_max_def)
  from cm [OF ms] have mm: "mns \<in> st ms" .
  define cnt' where "cnt' = (\<lambda>i. if i \<in> st ms then None else cnt i)"
  define st' where "st' = (\<lambda>p. if p = ms then {} else st p - st ms)"
  have "dom cnt' \<subseteq> dom cnt" unfolding cnt'_def by (auto split: if_splits)
  with fd have 1: "finite (dom cnt')" by (rule rev_finite_subset)
  have 2: "\<forall>j c. cnt' j = Some c \<longrightarrow> c \<noteq> {} \<and> finite c \<and> c \<subseteq> set ls \<and> (\<forall>p \<in> c. j \<in> st' p)"
  proof (intro allI impI)
    fix j c' assume a: "cnt' j = Some c'"
    then have j: "j \<notin> st ms" and cj: "cnt j = Some c'"
      unfolding cnt'_def by (auto split: if_splits)
    from cs [OF cj] have b: "c' \<noteq> {}" "finite c'" "c' \<subseteq> set ls" and d: "\<And>p. p \<in> c' \<Longrightarrow> j \<in> st p"
      by blast+
    have "j \<in> st' p" if "p \<in> c'" for p
      using d [OF that] j unfolding st'_def by auto
    with b show "c' \<noteq> {} \<and> finite c' \<and> c' \<subseteq> set ls \<and> (\<forall>p \<in> c'. j \<in> st' p)" by blast
  qed
  have 3: "\<forall>p. st' p \<subseteq> st0 p"
    using sub unfolding st'_def by auto
  have 4: "\<forall>p \<in> set ls. finite (st0 p)" using fin by blast
  have 5: "set (rtn @ [ms]) \<subseteq> set ls" using rt ms cls by auto
  have 6: "\<forall>j. (\<exists>p \<in> set ls. j \<in> st0 p) \<longrightarrow> j \<in> dom cnt' \<or> (\<exists>p \<in> set (rtn @ [ms]). j \<in> st0 p)"
  proof (intro allI impI)
    fix j assume "\<exists>p \<in> set ls. j \<in> st0 p"
    from cov [OF this] show "j \<in> dom cnt' \<or> (\<exists>p \<in> set (rtn @ [ms]). j \<in> st0 p)"
    proof
      assume jd: "j \<in> dom cnt"
      show ?thesis
      proof (cases "j \<in> st ms")
        case True
        with sub [of ms] have "j \<in> st0 ms" by blast
        then show ?thesis by auto
      next
        case False
        with jd have "j \<in> dom cnt'" unfolding cnt'_def by (auto simp: dom_def)
        then show ?thesis by blast
      qed
    next
      assume "\<exists>p \<in> set rtn. j \<in> st0 p"
      then show ?thesis by auto
    qed
  qed
  have "gpl_inv ls st0 cnt' st' (rtn @ [ms])"
    unfolding gpl_inv_def by (intro conjI 1 2 3 4 5 6)
  with ms mm show ?thesis unfolding cnt'_def st'_def by blast
qed

lemma gpl_loop_covers:
  "gpl_loop cnt st rtn res \<Longrightarrow> gpl_inv ls st0 cnt st rtn \<Longrightarrow>
   set res \<subseteq> set ls \<and> (\<forall>j. (\<exists>p \<in> set ls. j \<in> st0 p) \<longrightarrow> (\<exists>p \<in> set res. j \<in> st0 p))"
proof (induction rule: gpl_loop.induct)
  case (gpl_done cnt st rtn)
  then show ?case unfolding gpl_inv_def by auto
next
  case (gpl_step cnt mns c st ms rtn res)
  from gpl_inv_step [OF gpl_step.prems gpl_step.hyps(1,3)]
  have "gpl_inv ls st0 (\<lambda>i. if i \<in> st ms then None else cnt i)
           (\<lambda>p. if p = ms then {} else st p - st ms) (rtn @ [ms])" by blast
  then show ?case by (rule gpl_step.IH)
qed

lemma gpl_loop_ends:
  "gpl_inv ls st0 cnt st rtn \<Longrightarrow> \<exists>res. gpl_loop cnt st rtn res"
proof (induction "card (dom cnt)" arbitrary: cnt st rtn rule: less_induct)
  case less
  note inv = less.prems
  from inv have fd: "finite (dom cnt)"
    and cs: "\<And>j c. cnt j = Some c \<Longrightarrow> c \<noteq> {} \<and> finite c"
    unfolding gpl_inv_def by blast+
  show ?case
  proof (cases "dom cnt = {}")
    case True
    then have "cnt = Map.empty" by simp
    then show ?thesis by (blast intro: gpl_done)
  next
    case False
    define sz where "sz = (\<lambda>j. card (the (cnt j)))"
    from fd False have "Min (sz ` dom cnt) \<in> sz ` dom cnt" by (intro Min_in) simp_all
    then obtain mns where mns: "mns \<in> dom cnt" "Min (sz ` dom cnt) = sz mns" by auto
    then obtain c where c: "cnt mns = Some c" by auto
    have least: "card c \<le> card s" if "cnt i = Some s" for i s
    proof -
      from that have "sz i \<in> sz ` dom cnt" by auto
      with fd have "Min (sz ` dom cnt) \<le> sz i" by (intro Min_le) simp_all
      with mns(2) c that show ?thesis by (simp add: sz_def)
    qed
    from cs [OF c] have cne: "c \<noteq> {}" and cf: "finite c" by simp_all
    define w where "w = (\<lambda>p. card (st p))"
    from cf cne have "Max (w ` c) \<in> w ` c" by (intro Max_in) simp_all
    then obtain ms0 where ms0: "ms0 \<in> c" "Max (w ` c) = w ms0" by auto
    have most: "w p \<le> w ms0" if "p \<in> c" for p
      using that cf ms0(2) [symmetric] by (simp add: Max_ge)
    define ms where "ms = (if \<forall>i \<in> c. card (st i) = 0 then [] else ms0)"
    have pk: "pick_max st c ms"
      unfolding pick_max_def ms_def using ms0(1) most by (auto simp: w_def)
    from gpl_inv_step [OF inv c pk]
    have inv': "gpl_inv ls st0 (\<lambda>i. if i \<in> st ms then None else cnt i)
           (\<lambda>p. if p = ms then {} else st p - st ms) (rtn @ [ms])"
      and mm: "mns \<in> st ms" by blast+
    have "dom (\<lambda>i. if i \<in> st ms then None else cnt i) \<subset> dom cnt"
      using mm mns(1) by (auto simp: dom_def split: if_splits)
    with fd have "card (dom (\<lambda>i. if i \<in> st ms then None else cnt i)) < card (dom cnt)"
      by (intro psubset_card_mono)
    from less.hyps [OF this inv'] obtain res where
      g: "gpl_loop (\<lambda>i. if i \<in> st ms then None else cnt i)
           (\<lambda>p. if p = ms then {} else st p - st ms) (rtn @ [ms]) res" by blast
    have "gpl_loop cnt st rtn res"
    proof (rule gpl_step)
      show "cnt mns = Some c" by (rule c)
      show "card c \<le> card s" if "cnt i = Some s" for i s using that by (rule least)
      show "pick_max st c ms" by (rule pk)
      show "gpl_loop (\<lambda>i. if i \<in> st ms then None else cnt i)
           (\<lambda>p. if p = ms then {} else st p - st ms) (rtn @ [ms]) res" by (rule g)
    qed
    then show ?thesis by blast
  qed
qed

section \<open>QMA as a whole\<close>

lemma nth_to_string:
  "k < n \<Longrightarrow> to_string n i ! k = (if (i div 2 ^ (n - 1 - k)) mod 2 = 1 then CHR ''1'' else CHR ''0'')"
proof (induction n arbitrary: k)
  case 0
  then show ?case by simp
next
  case (Suc n)
  show ?case
  proof (cases k)
    case 0
    then show ?thesis by simp
  next
    case (Suc k')
    with Suc.prems have "k' < n" by simp
    from Suc.IH [OF this] Suc show ?thesis by simp
  qed
qed

lemma consistent_matches:
  assumes wf: "wf_pat (length var) p" and d: "distinct var"
    and c: "consistent var p (assignment var i)"
  shows "matches p (to_string (length var) i)"
  unfolding matches_def list_all2_conv_all_nth
proof (intro conjI allI impI)
  show "length p = length (to_string (length var) i)"
    using wf by (simp add: wf_pat_def length_to_string)
next
  fix k assume "k < length p"
  then have "p ! k \<in> set p" by simp
  moreover from wf have "set p \<subseteq> {CHR ''0'', CHR ''1'', CHR ''-''}" by (simp add: wf_pat_def)
  ultimately have "p ! k \<in> {CHR ''0'', CHR ''1'', CHR ''-''}" by (rule subsetD [rotated])
  moreover from wf \<open>k < length p\<close> have k: "k < length var" by (simp add: wf_pat_def)
  ultimately have "p ! k \<in> {CHR ''0'', CHR ''1'', CHR ''-''}" by simp
  then consider "p ! k = CHR ''-''" | "p ! k = CHR ''1''" | "p ! k = CHR ''0''" by blast
  then show "p ! k = CHR ''-'' \<or> p ! k = to_string (length var) i ! k"
  proof cases
    case 1
    then show ?thesis by simp
  next
    case 2
    with c k have "assignment var i (var ! k) = 1" by (simp add: consistent_def)
    with assignment_nth [OF d k, of i] 2 show ?thesis
      by (simp add: nth_to_string [OF k])
  next
    case 3
    with c k have "assignment var i (var ! k) = 0" by (simp add: consistent_def)
    with assignment_nth [OF d k, of i] 3 show ?thesis
      by (simp add: nth_to_string [OF k])
  qed
qed

lemma assign_01:
  "\<forall>c. mvar c = 0 \<or> mvar c = 1 \<Longrightarrow> assign var i cnt mvar c = 0 \<or> assign var i cnt mvar c = 1"
proof (induction var arbitrary: cnt mvar)
  case Nil
  then show ?case by simp
next
  case (Cons j var)
  define b where "b = int ((i div 2 ^ nat cnt) mod 2)"
  have b: "b = 0 \<or> b = 1" unfolding b_def by auto
  have "assign var i (cnt - 1) (mvar(j := b)) c = 0 \<or> assign var i (cnt - 1) (mvar(j := b)) c = 1"
  proof (rule Cons.IH)
    show "\<forall>c. (mvar(j := b)) c = 0 \<or> (mvar(j := b)) c = 1"
      using Cons.prems b by simp
  qed
  then show ?case unfolding b_def by simp
qed

lemma assignment_01: "assignment var i c = 0 \<or> assignment var i c = 1"
  unfolding assignment_def by (rule assign_01) simp

lemma get_01:
  "\<forall>c. mvar c = 0 \<or> mvar c = 1 \<Longrightarrow> get t mvar = 0 \<or> get t mvar = 1"
proof (induction t)
  case (VarNode c)
  have "(of_char c :: int) = int (of_char c)" by (simp add: of_nat_of_char)
  then have "(of_char c :: nat) < 2 \<Longrightarrow> (of_char c :: int) = 0 \<or> (of_char c :: int) = 1"
    by (auto simp only: less_2_cases_iff)
  with VarNode show ?case by auto
next
  case (NotNode t)
  then show ?case by auto
next
  case (AndNode l r)
  then show ?case by auto
next
  case (OrNode l r)
  then show ?case by auto
next
  case (XorNode l r)
  then show ?case by auto
qed

lemma tvt_member:
  "(i \<in> set (tvt var root)) = (i < 2 ^ length var \<and> get root (assignment var i) = 1)"
  using get_01 [of "assignment var i" root] assignment_01 [of var i]
  by (auto simp: tvt_filter)

lemma main_CallQMA:
  assumes "main input = Table var root m CallQMA"
  shows "m = tvt var root" and "m \<noteq> []" and "set m \<subseteq> {..<2 ^ length var}"
    and "set m \<noteq> {..<2 ^ length var}" and "var \<noteq> []" and "sorted var" and "distinct var"
proof -
  from main_Table [OF assms] have v: "validate input [] = Inr var" and r: "parse input = Root root"
    and ne: "var \<noteq> []" and m: "m = tvt var root" by simp_all
  from assms v r ne have len: "length m \<noteq> 0" "length m \<noteq> 2 ^ length var"
    by (auto simp: main_def analyze_def Let_def m split: if_splits)
  from len(2) tvt_length_full [of var root] show "set m \<noteq> {..<2 ^ length var}"
    by (simp add: m atLeast0LessThan)
  from tvt_subset [of var root] show "set m \<subseteq> {..<2 ^ length var}"
    by (simp add: m atLeast0LessThan)
  from validate_var [OF v] show "sorted var" "distinct var" by simp_all
  from m len(1) ne show "m = tvt var root" "m \<noteq> []" "var \<noteq> []" by simp_all
qed

lemma QMA_run_result:
  assumes M: "set m \<subseteq> {..<2 ^ length var}" "m \<noteq> []"
  shows "(\<exists>ls st sl. QMA_run var m ls st sl)
       \<and> (\<forall>ls st sl. QMA_run var m ls st sl \<longrightarrow>
            set ls = {p. prime (length var) (set m) p}
            \<and> (\<forall>p \<in> set ls. at_st st p = cube (length var) p)
            \<and> set sl \<subseteq> set ls \<and> (\<Union>p \<in> set sl. at_st st p) = set m)"
proof -
  define n where "n = length var"
  obtain ls0 st0 where c: "QMA_convert n m ([], Map.empty) = (ls0, st0)"
    by (cases "QMA_convert n m ([], Map.empty)")
  from merge_loop_result [OF M [folded n_def] c]
  obtain ls st r where l: "merge_loop ls0 st0 = Some (ls, st)" and p: "pass n m r ls st"
    and pr: "set ls = {p. prime n (set m) p}" by blast
  note inv = pass_inv [OF p M(1) [folded n_def]]
  from merge_inv_cover [OF inv M(1) [folded n_def]]
  have cov: "(\<Union>p \<in> set ls. at_st st p) = set m" and at: "\<forall>p \<in> set ls. at_st st p = cube n p"
    by blast+
  have fin: "\<forall>p \<in> set ls. finite (at_st st p)"
  proof
    fix q assume "q \<in> set ls"
    with at have "at_st st q = cube n q" by simp
    moreover have "cube n q \<subseteq> {..<2 ^ n}" by (auto simp: cube_def)
    ultimately show "finite (at_st st q)" by (simp add: finite_subset)
  qed
  from gpl_inv_first [OF merge_inv_subset [OF inv] fin]
  obtain cnt where ce: "count_elements ls st Map.empty = Some cnt"
    and gi: "gpl_inv ls (at_st st) cnt (at_st st) []" by blast
  have run: "QMA_run var m ls' st' sl = (ls' = ls \<and> st' = st \<and> gpl_loop cnt (at_st st) [] sl)"
    for ls' st' sl
    using c l ce by (auto simp: QMA_run_def gpl_def n_def [symmetric])
  from gpl_loop_ends [OF gi] obtain sl where "gpl_loop cnt (at_st st) [] sl" by blast
  then have A: "\<exists>ls st sl. QMA_run var m ls st sl" unfolding run by blast
  have B: "\<forall>ls' st' sl. QMA_run var m ls' st' sl \<longrightarrow>
            set ls' = {p. prime n (set m) p}
            \<and> (\<forall>p \<in> set ls'. at_st st' p = cube n p)
            \<and> set sl \<subseteq> set ls' \<and> (\<Union>p \<in> set sl. at_st st' p) = set m"
  proof (intro allI impI)
    fix ls' st' sl assume "QMA_run var m ls' st' sl"
    then have eq: "ls' = ls" "st' = st" and g: "gpl_loop cnt (at_st st) [] sl"
      unfolding run by simp_all
    from gpl_loop_covers [OF g gi] have sub: "set sl \<subseteq> set ls"
      and all: "\<And>j. \<exists>p \<in> set ls. j \<in> at_st st p \<Longrightarrow> \<exists>p \<in> set sl. j \<in> at_st st p"
      by blast+
    have "(\<Union>p \<in> set sl. at_st st p) = set m"
    proof
      from sub cov show "(\<Union>p \<in> set sl. at_st st p) \<subseteq> set m" by blast
    next
      show "set m \<subseteq> (\<Union>p \<in> set sl. at_st st p)"
      proof
        fix j assume "j \<in> set m"
        with cov have "\<exists>p \<in> set ls. j \<in> at_st st p" by blast
        from all [OF this] show "j \<in> (\<Union>p \<in> set sl. at_st st p)" by blast
      qed
    qed
    with pr at sub show "set ls' = {p. prime n (set m) p}
            \<and> (\<forall>p \<in> set ls'. at_st st' p = cube n p)
            \<and> set sl \<subseteq> set ls' \<and> (\<Union>p \<in> set sl. at_st st' p) = set m"
      unfolding eq by simp
  qed
  from A B show ?thesis unfolding n_def by (intro conjI)
qed

text \<open>
  C2. When a run reaches the call of \<open>QMA\<close> (the minterm set is neither empty nor the
  whole range), \<open>QMA\<close> returns, and for every list \<open>sl\<close> it can return: the selected
  patterns are among the patterns \<open>ls\<close> that the merge loop hands to \<open>gpl\<close>, which are the
  prime implicants, and the union of their coverage sets (the sets \<open>st\<close> holds when
  \<open>gpl\<close> is called) is exactly the minterm set.
\<close>

theorem total_cover:
  assumes "main input = Table var root m CallQMA"
  shows "(\<exists>ls st sl. QMA_run var m ls st sl)
       \<and> (\<forall>ls st sl. QMA_run var m ls st sl \<longrightarrow>
            set sl \<subseteq> set ls \<and> set ls = {p. prime (length var) (set m) p}
            \<and> (\<Union>p \<in> set sl. at_st st p) = set m)"
proof -
  note c = main_CallQMA [OF assms]
  from QMA_run_result [OF c(3) c(2)] show ?thesis by blast
qed

lemma example_main:
  "main (''A+BB'' @ [quote])
     = Table ''AB'' (OrNode (AndNode (NotNode (VarNode (CHR ''B''))) (VarNode (CHR ''B''))) (VarNode (CHR ''A'')))
         [2, 3] CallQMA"
  by code_simp

lemma example_run:
  assumes "QMA_run ''AB'' [2, 3] ls st sl"
  shows "ls = [''1-''] \<and> set sl = {''1-''}"
proof -
  have 1: "set [2, 3 :: nat] \<subseteq> {..<2 ^ length ''AB''}" by simp
  have 2: "[2, 3 :: nat] \<noteq> []" by simp
  from QMA_run_result [OF 1 2] assms
  have sub: "set sl \<subseteq> set ls" and un: "(\<Union>p \<in> set sl. at_st st p) = set [2, 3 :: nat]"
    by blast+
  have "map_option fst (merge_loop (fst (QMA_convert (length ''AB'') [2, 3] ([], Map.empty)))
                 (snd (QMA_convert (length ''AB'') [2, 3] ([], Map.empty)))) = Some [''1-'']"
    by code_simp
  with assms have ls: "ls = [''1-'']" by (simp add: QMA_run_def)
  from un have "set sl \<noteq> {}" by auto
  from sub ls have "set sl \<subseteq> {''1-''}" by simp
  then have "set sl = {} \<or> set sl = {''1-''}" by (rule subset_singletonD)
  with \<open>set sl \<noteq> {}\<close> have "set sl = {''1-''}" by simp
  with ls show ?thesis by simp
qed

theorem total_cover_witness:
  "main (''A+BB'' @ [quote])
     = Table ''AB'' (OrNode (AndNode (NotNode (VarNode (CHR ''B''))) (VarNode (CHR ''B''))) (VarNode (CHR ''A'')))
         [2, 3] CallQMA
   \<and> (\<exists>st sl. QMA_run ''AB'' [2, 3] [''1-''] st sl \<and> set sl = {''1-''}
         \<and> (\<Union>p \<in> set sl. at_st st p) = set [2, 3])"
proof -
  note t = total_cover [OF example_main]
  then obtain ls st sl where r: "QMA_run ''AB'' [2, 3] ls st sl" by blast
  with t have "(\<Union>p \<in> set sl. at_st st p) = set [2, 3 :: nat]" by blast
  with r example_run [OF r] example_main show ?thesis by blast
qed

text \<open>
  C3. When a run reaches the call of \<open>QMA\<close>, \<open>QMA\<close> returns, and for every pattern \<open>p\<close> of
  a list it can return: the cube of \<open>p\<close> lies in the minterm set; on every row \<open>i\<close> of the
  table whose assignment agrees with \<open>p\<close> on the positions that are not \<open>-\<close> the root
  evaluates to 1; and no index of the cube evaluates to 0.
\<close>

theorem implicant_soundness:
  assumes "main input = Table var root m CallQMA"
  shows "(\<exists>sl. QMA var m sl)
       \<and> (\<forall>sl p. QMA var m sl \<and> p \<in> set sl \<longrightarrow>
            cube (length var) p \<subseteq> set m
            \<and> (\<forall>i < 2 ^ length var. consistent var p (assignment var i)
                  \<longrightarrow> get root (assignment var i) = 1)
            \<and> \<not> (\<exists>i \<in> cube (length var) p. get root (assignment var i) = 0))"
proof -
  note c = main_CallQMA [OF assms]
  note m = c(1) and d = c(7)
  note R = QMA_run_result [OF c(3) c(2)]
  note R2 = R [THEN conjunct2, rule_format]
  from R [THEN conjunct1] have A: "\<exists>sl. QMA var m sl" unfolding QMA_def by blast
  have B: "\<forall>sl p. QMA var m sl \<and> p \<in> set sl \<longrightarrow>
            cube (length var) p \<subseteq> set m
            \<and> (\<forall>i < 2 ^ length var. consistent var p (assignment var i)
                  \<longrightarrow> get root (assignment var i) = 1)
            \<and> \<not> (\<exists>i \<in> cube (length var) p. get root (assignment var i) = 0)"
  proof (intro allI impI)
    fix sl p assume a: "QMA var m sl \<and> p \<in> set sl"
    then obtain ls st where run: "QMA_run var m ls st sl" unfolding QMA_def by blast
    from a R2 [OF run, THEN conjunct1] R2 [OF run, THEN conjunct2, THEN conjunct2, THEN conjunct1]
    have "prime (length var) (set m) p" by blast
    then have wf: "wf_pat (length var) p" and sub: "cube (length var) p \<subseteq> set m"
      by (simp_all add: prime_def implicant_def)
    have one: "get root (assignment var i) = 1" if "i \<in> cube (length var) p" for i
      using that sub tvt_member [of i var root] by (auto simp: m)
    have C: "\<forall>i < 2 ^ length var. consistent var p (assignment var i)
                  \<longrightarrow> get root (assignment var i) = 1"
    proof (intro allI impI)
      fix i assume i: "i < 2 ^ length var" and c: "consistent var p (assignment var i)"
      from consistent_matches [OF wf d c] i have "i \<in> cube (length var) p"
        by (simp add: cube_def)
      then show "get root (assignment var i) = 1" by (rule one)
    qed
    have D: "\<not> (\<exists>i \<in> cube (length var) p. get root (assignment var i) = 0)"
      using one by fastforce
    from sub C D show "cube (length var) p \<subseteq> set m
            \<and> (\<forall>i < 2 ^ length var. consistent var p (assignment var i)
                  \<longrightarrow> get root (assignment var i) = 1)
            \<and> \<not> (\<exists>i \<in> cube (length var) p. get root (assignment var i) = 0)"
      by (intro conjI)
  qed
  from A B show ?thesis by (intro conjI)
qed

theorem implicant_soundness_witness:
  "\<exists>sl. QMA ''AB'' [2, 3] sl \<and> ''1-'' \<in> set sl \<and> cube (length ''AB'') ''1-'' \<subseteq> set [2, 3]
     \<and> consistent ''AB'' ''1-'' (assignment ''AB'' 2)
     \<and> get (OrNode (AndNode (NotNode (VarNode (CHR ''B''))) (VarNode (CHR ''B''))) (VarNode (CHR ''A'')))
         (assignment ''AB'' 2) = 1"
proof -
  note t = implicant_soundness [OF example_main]
  then obtain sl where q: "QMA ''AB'' [2, 3] sl" by blast
  then obtain ls st where "QMA_run ''AB'' [2, 3] ls st sl" unfolding QMA_def by blast
  from example_run [OF this] have p: "''1-'' \<in> set sl" by simp
  have c: "consistent ''AB'' ''1-'' (assignment ''AB'' 2)"
    by (simp add: consistent_def assignment_def All_less_Suc)
  have i: "(2 :: nat) < 2 ^ length ''AB''" by simp
  from t q p have "cube (length ''AB'') ''1-'' \<subseteq> set [2, 3]"
    and "\<forall>i < 2 ^ length ''AB''. consistent ''AB'' ''1-'' (assignment ''AB'' i)
      \<longrightarrow> get (OrNode (AndNode (NotNode (VarNode (CHR ''B''))) (VarNode (CHR ''B''))) (VarNode (CHR ''A'')))
         (assignment ''AB'' i) = 1"
    by blast+
  with q p c i show ?thesis by blast
qed

end
